theory Spec2Isabelle
  imports Main "HOL-Library.Word"
begin

unbundle bit_operations_syntax

section \<open>Integer types, status codes and results\<close>

type_synonym u8 = "8 word"
type_synonym u16 = "16 word"
type_synonym u32 = "32 word"
type_synonym u64 = "64 word"
type_synonym usize = "64 word"

text \<open>
  A \<open>Status\<close> is a status code; \<open>OkStatus\<close> is the only one for which \<open>ok()\<close> holds.
  The codes are the ones the three source files name (\<open>kCancelled\<close>, \<open>kUnknown\<close>,
  \<open>kRecyclerStopped\<close>) and the error kinds of the collaborators (no space, halted
  device, I/O failure, failed page deletion).
\<close>

datatype status_code =
    OkStatus
  | kCancelled
  | kUnknown
  | kRecyclerStopped
  | kNoSpace
  | kHalted
  | kLogIO
  | kPageDeleteFailed

text \<open>
  How a member function ends when it does not produce its value: it returns a non-ok
  \<open>Status\<close> (\<open>BATT_REQUIRE_OK\<close>), a \<open>BATT_CHECK\<close> aborts the process, it reads
  through an empty \<open>Optional\<close>, or it uses an object that has been moved from.
\<close>

datatype failure =
    Status status_code
  | Check_failed string
  | Deref_empty_optional
  | Use_after_move

type_synonym 'a status_or = "failure + 'a"

section \<open>Slot offsets\<close>

type_synonym slot_offset_type = u64

record SlotRange =
  lower_bound :: slot_offset_type
  upper_bound :: slot_offset_type

text \<open>
  Modelled from the spec: \<open>slot_less_than\<close>, \<open>slot_max\<close>, \<open>slot_min\<close> and
  \<open>clamp_min_slot\<close> (the slot header is not among the sources). The spec asks for a
  wrap-around tolerant order on 64-bit offsets that treats the space as a sliding window:
  \<open>first\<close> is before \<open>second\<close> when the distance from \<open>first\<close> forward to
  \<open>second\<close> is non-zero and less than half of the space.
\<close>

definition slot_less_than :: "slot_offset_type \<Rightarrow> slot_offset_type \<Rightarrow> bool" where
  "slot_less_than first second = (first \<noteq> second \<and> second - first < 2 ^ 63)"

definition slot_max :: "slot_offset_type \<Rightarrow> slot_offset_type \<Rightarrow> slot_offset_type" where
  "slot_max first second = (if slot_less_than first second then second else first)"

definition slot_min :: "slot_offset_type \<Rightarrow> slot_offset_type \<Rightarrow> slot_offset_type" where
  "slot_min first second = (if slot_less_than first second then first else second)"

definition clamp_min_slot ::
  "slot_offset_type option \<Rightarrow> slot_offset_type \<Rightarrow> slot_offset_type option" where
  "clamp_min_slot slot min_offset =
     Some (slot_max (case slot of None \<Rightarrow> min_offset | Some v \<Rightarrow> v) min_offset)"

section \<open>PackedLogDeviceConfig (log_device_config.hpp)\<close>

text \<open>
  Modelled from the spec: \<open>PackedConfigSlot::kSize\<close> (packed_config.hpp is not among the
  sources; the spec gives the fixed slot size of 64 bytes) and \<open>kKiB\<close> (constants.hpp).
\<close>

definition PackedConfigSlot_kSize :: nat where
  "PackedConfigSlot_kSize = 64"

definition kKiB :: usize where
  "kKiB = 1024"

text \<open>The struct, field by field in declaration order. The byte arrays are lists.\<close>

record PackedLogDeviceConfig =
  tag :: u32
  pad0 :: "u8 list"
  pages_per_block_log2 :: u16
  block_0_offset :: u64
  physical_size :: u64
  logical_size :: u64
  uuid :: "u8 list"
  pad1 :: "u8 list"

definition kSize :: nat where
  "kSize = PackedConfigSlot_kSize"

text \<open>The declared field types and their sizes in bytes (all of alignment 1).\<close>

datatype field_type =
    little_u16
  | little_u32
  | little_u64
  | little_i64
  | u8_array nat
  | boost_uuid

fun sizeof_field :: "field_type \<Rightarrow> nat" where
  "sizeof_field little_u16 = 2"
| "sizeof_field little_u32 = 4"
| "sizeof_field little_u64 = 8"
| "sizeof_field little_i64 = 8"
| "sizeof_field (u8_array n) = n"
| "sizeof_field boost_uuid = 16"

definition PackedLogDeviceConfig_fields :: "(string \<times> field_type) list" where
  "PackedLogDeviceConfig_fields =
     [(''tag'', little_u32),
      (''pad0_'', u8_array 2),
      (''pages_per_block_log2'', little_u16),
      (''block_0_offset'', little_i64),
      (''physical_size'', little_u64),
      (''logical_size'', little_u64),
      (''uuid'', boost_uuid),
      (''pad1_'', u8_array 16)]"

definition sizeof_PackedLogDeviceConfig :: nat where
  "sizeof_PackedLogDeviceConfig = sum_list (map (\<lambda>f. sizeof_field (snd f)) PackedLogDeviceConfig_fields)"

text \<open>A little-endian integer field: the least significant byte comes first.\<close>

fun little_endian_bytes :: "nat \<Rightarrow> 'a::len word \<Rightarrow> u8 list" where
  "little_endian_bytes 0 w = []"
| "little_endian_bytes (Suc n) w = ucast w # little_endian_bytes n (drop_bit 8 w)"

fun little_endian_value :: "u8 list \<Rightarrow> 'a::len word" where
  "little_endian_value [] = 0"
| "little_endian_value (b # bs) = ucast b OR push_bit 8 (little_endian_value bs)"

text \<open>The bytes of the struct in memory, and the struct read back from them.\<close>

definition wf_PackedLogDeviceConfig :: "PackedLogDeviceConfig \<Rightarrow> bool" where
  "wf_PackedLogDeviceConfig c = (length (pad0 c) = 2 \<and> length (uuid c) = 16 \<and> length (pad1 c) = 16)"

definition packed_bytes :: "PackedLogDeviceConfig \<Rightarrow> u8 list" where
  "packed_bytes c =
     little_endian_bytes 4 (tag c) @ pad0 c @
     little_endian_bytes 2 (pages_per_block_log2 c) @
     little_endian_bytes 8 (block_0_offset c) @
     little_endian_bytes 8 (physical_size c) @
     little_endian_bytes 8 (logical_size c) @
     uuid c @ pad1 c"

definition unpack_bytes :: "u8 list \<Rightarrow> PackedLogDeviceConfig" where
  "unpack_bytes bs =
     \<lparr> tag = little_endian_value (take 4 bs),
       pad0 = take 2 (drop 4 bs),
       pages_per_block_log2 = little_endian_value (take 2 (drop 6 bs)),
       block_0_offset = little_endian_value (take 8 (drop 8 bs)),
       physical_size = little_endian_value (take 8 (drop 16 bs)),
       logical_size = little_endian_value (take 8 (drop 24 bs)),
       uuid = take 16 (drop 32 bs),
       pad1 = take 16 (drop 48 bs) \<rparr>"

text \<open>
  \<open>pages_per_block()\<close> is \<open>usize{1} << pages_per_block_log2\<close>. A shift of a 64-bit
  value by 64 or more is undefined in C++, so the model gives no value there.
  \<open>block_size()\<close> is \<open>4 * kKiB * pages_per_block()\<close>, computed in \<open>usize\<close>.
\<close>

definition pages_per_block :: "PackedLogDeviceConfig \<Rightarrow> usize option" where
  "pages_per_block c =
     (if unat (pages_per_block_log2 c) < 64
      then Some (push_bit (unat (pages_per_block_log2 c)) 1)
      else None)"

definition block_size :: "PackedLogDeviceConfig \<Rightarrow> usize option" where
  "block_size c = map_option (\<lambda>p. 4 * kKiB * p) (pages_per_block c)"

section \<open>Grants and the slot writer\<close>

text \<open>
  Modelled from the spec: \<open>batt::Grant\<close> and \<open>TypedSlotWriter\<close> (neither header is
  among the sources). A grant is a credit of log bytes carved from the pool of one slot
  writer (its issuer). \<open>append\<close> serialises the payload, takes exactly its packed size
  from the grant and returns the slot range it was given; it fails when the grant holds
  fewer bytes than the packed size and, once the writer is halted, always. Appends are
  sequential: the new slot starts at the current slot offset.
\<close>

record Grant =
  issuer :: nat
  grant_size :: nat

record slot_writer =
  sw_pool :: nat
  sw_slot_offset :: slot_offset_type
  sw_trim_pos :: slot_offset_type
  sw_pool_size :: nat
  sw_halted :: bool

definition slot_writer_append ::
  "nat \<Rightarrow> Grant \<Rightarrow> slot_writer \<Rightarrow> (SlotRange \<times> Grant \<times> slot_writer) status_or" where
  "slot_writer_append packed_size g w =
     (if sw_halted w then Inl (Status kHalted)
      else if grant_size g < packed_size then Inl (Status kNoSpace)
      else
        let slot_range = \<lparr> lower_bound = sw_slot_offset w,
                            upper_bound = sw_slot_offset w + of_nat packed_size \<rparr>
        in Inr (slot_range,
                g\<lparr>grant_size := grant_size g - packed_size\<rparr>,
                w\<lparr>sw_slot_offset := upper_bound slot_range\<rparr>))"

text \<open>
  \<open>reserve(n, WaitForResource::kFalse)\<close> carves \<open>n\<close> bytes from the pool or fails at
  once; a grant that is destroyed or revoked gives its bytes back to the pool.
\<close>

definition slot_writer_reserve :: "nat \<Rightarrow> slot_writer \<Rightarrow> (Grant \<times> slot_writer) status_or" where
  "slot_writer_reserve n w =
     (if sw_halted w then Inl (Status kHalted)
      else if sw_pool_size w < n then Inl (Status kNoSpace)
      else Inr (\<lparr> issuer = sw_pool w, grant_size = n \<rparr>, w\<lparr>sw_pool_size := sw_pool_size w - n\<rparr>))"

definition release_grant :: "Grant \<Rightarrow> slot_writer \<Rightarrow> slot_writer" where
  "release_grant g w = w\<lparr>sw_pool_size := sw_pool_size w + grant_size g\<rparr>"

text \<open>
  \<open>Grant::spend(n)\<close> splits \<open>n\<close> bytes off a grant into a new grant of the same
  issuer. Without waiting it fails when the grant is too small. With
  \<open>WaitForResource::kTrue\<close> it blocks until the grant is topped up or revoked; one
  thread alone cannot top it up, so the wait of the model ends the way \<open>halt()\<close> ends it.
\<close>

definition grant_spend :: "nat \<Rightarrow> Grant \<Rightarrow> (Grant \<times> Grant) status_or" where
  "grant_spend n g =
     (if grant_size g < n then Inl (Status kNoSpace)
      else Inr (\<lparr> issuer = issuer g, grant_size = n \<rparr>, g\<lparr>grant_size := grant_size g - n\<rparr>))"

definition grant_spend_wait :: "nat \<Rightarrow> Grant \<Rightarrow> (Grant \<times> Grant) status_or" where
  "grant_spend_wait n g =
     (if grant_size g < n then Inl (Status kCancelled)
      else Inr (\<lparr> issuer = issuer g, grant_size = n \<rparr>, g\<lparr>grant_size := grant_size g - n\<rparr>))"

definition grant_subsume :: "Grant \<Rightarrow> Grant \<Rightarrow> Grant" where
  "grant_subsume g other = g\<lparr>grant_size := grant_size g + grant_size other\<rparr>"

text \<open>
  \<open>trim(slot)\<close> advances the lower bound of the log and gives the released bytes back to
  the pool.
\<close>

definition slot_writer_trim :: "slot_offset_type \<Rightarrow> slot_writer \<Rightarrow> slot_writer status_or" where
  "slot_writer_trim slot_lower_bound w =
     (if sw_halted w then Inl (Status kHalted)
      else if slot_less_than (sw_trim_pos w) slot_lower_bound
      then Inr (w\<lparr>sw_trim_pos := slot_lower_bound,
                  sw_pool_size := sw_pool_size w + unat (slot_lower_bound - sw_trim_pos w)\<rparr>)
      else Inr w)"

datatype LogReadMode = kSpeculative | kDurable

section \<open>Volume (volume.cpp)\<close>

subsection \<open>Collaborators of the volume\<close>

text \<open>The slots of the root log (\<open>VolumeEventVariant\<close>); a job is named by a number.\<close>

record AppendableJob =
  job :: nat
  user_data :: "u8 list"

datatype VolumeEvent =
    PackedVolumeIds
  | PackedVolumeAttachEvent nat
  | PackedPrepareJob AppendableJob
  | PackedCommitJob slot_offset_type
  | PackedRollbackJob slot_offset_type

definition prepare :: "AppendableJob \<Rightarrow> VolumeEvent" where
  "prepare appendable = PackedPrepareJob appendable"

record JobCommitParams =
  caller_uuid :: nat
  caller_slot :: slot_offset_type
  recycle_grant :: "Grant option"
  recycle_depth :: nat

text \<open>
  Modelled from the spec: \<open>SlotSequencer\<close> (its header is not among the sources).
  \<open>await_prev\<close> delivers the slot range of the previous job of the sequence, or its
  error. The current slot is set once, to a range (\<open>set_current\<close>) or to an error
  (\<open>set_error\<close>); both return whether this call set it. The sequencer is resolved once
  set.
\<close>

record SlotSequencer =
  prev :: "status_code + SlotRange"
  current :: "(status_code + SlotRange) option"

definition await_prev :: "SlotSequencer \<Rightarrow> status_code + SlotRange" where
  "await_prev s = prev s"

definition is_resolved :: "SlotSequencer \<Rightarrow> bool" where
  "is_resolved s = (current s \<noteq> None)"

definition set_error :: "status_code \<Rightarrow> SlotSequencer \<Rightarrow> bool \<times> SlotSequencer" where
  "set_error e s = (if is_resolved s then (False, s) else (True, s\<lparr>current := Some (Inl e)\<rparr>))"

definition set_current :: "SlotRange \<Rightarrow> SlotSequencer \<Rightarrow> bool \<times> SlotSequencer" where
  "set_current slot_range s =
     (if is_resolved s then (False, s) else (True, s\<lparr>current := Some (Inr slot_range)\<rparr>))"

text \<open>
  What the calls of \<open>Volume::append\<close> and \<open>Volume::trim\<close> do, in program order: the
  slots written to the root log and the calls into the collaborators with their results.
\<close>

datatype volume_event =
    V_await_prev "status_code + SlotRange"
  | V_sync LogReadMode slot_offset_type status_code
  | V_append SlotRange VolumeEvent
  | V_set_error status_code
  | V_set_current SlotRange
  | V_commit nat JobCommitParams status_code
  | V_update_lock SlotRange status_code

text \<open>
  The collaborators whose code is outside the sources are parameters: the outcome of
  \<open>slot_writer_.sync\<close> on the root log, of the page cache's \<open>commit\<close> of a job, of
  \<open>SlotLockManager::update_lock\<close> (given the held and the requested range), and the
  packed size of a slot.
\<close>

record volume_env =
  root_log_sync :: "LogReadMode \<Rightarrow> slot_offset_type \<Rightarrow> status_code"
  commit :: "nat \<Rightarrow> JobCommitParams \<Rightarrow> status_code"
  update_lock :: "SlotRange \<Rightarrow> SlotRange \<Rightarrow> status_code"
  packed_sizeof_slot :: "VolumeEvent \<Rightarrow> nat"

record Volume =
  volume_uuid :: nat
  slot_writer :: slot_writer
  trim_lock :: "SlotRange option"
  volume_trace :: "volume_event list"

definition record_event :: "volume_event \<Rightarrow> Volume \<Rightarrow> Volume" where
  "record_event e v = v\<lparr>volume_trace := volume_trace v @ [e]\<rparr>"

subsection \<open>Volume::trim\<close>

text \<open>
  The trim lock of the volume is the slot range it holds, or \<open>None\<close> once the lock
  object has been moved from. The target range is the range of the trim lock with its
  lower bound raised to \<open>slot_max\<close> of itself and the argument. The lock is handed to
  \<open>update_lock\<close> by \<open>std::move\<close>; \<open>BATT_ASSIGN_OK_RESULT\<close> assigns the lock that
  \<open>update_lock\<close> returns, and on a failure it returns the status with the lock of the
  volume left moved from. What \<open>slot_range()\<close> of a moved-from lock gives is not in
  the sources: a call that finds the lock moved from ends in \<open>Use_after_move\<close>.
\<close>

definition trim :: "volume_env \<Rightarrow> slot_offset_type \<Rightarrow> Volume \<Rightarrow> unit status_or \<times> Volume" where
  "trim env slot_lower_bound v =
     (case trim_lock v of
        None \<Rightarrow> (Inl Use_after_move, v)
      | Some held \<Rightarrow>
          let target_range =
                held\<lparr>lower_bound := slot_max (lower_bound held) slot_lower_bound\<rparr>;
              st = update_lock env held target_range;
              v1 = record_event (V_update_lock target_range st) (v\<lparr>trim_lock := None\<rparr>)
          in if st \<noteq> OkStatus then (Inl (Status st), v1)
             else (Inr (), v1\<lparr>trim_lock := Some target_range\<rparr>))"

subsection \<open>Volume::append of a job\<close>

text \<open>
  Phase 0: wait for the previous slot of the sequence and for its speculative sync.
  On either failure \<open>set_error\<close> is called (its result is not looked at) and the status
  is returned.
\<close>

definition append_phase0 ::
  "volume_env \<Rightarrow> SlotSequencer option \<Rightarrow> Volume \<Rightarrow> unit status_or \<times> SlotSequencer option \<times> Volume" where
  "append_phase0 env sequencer v =
     (case sequencer of
        None \<Rightarrow> (Inr (), None, v)
      | Some s \<Rightarrow>
          let prev_slot = await_prev s;
              v1 = record_event (V_await_prev prev_slot) v
          in (case prev_slot of
                Inl e \<Rightarrow>
                  (Inl (Status e), Some (snd (set_error e s)), record_event (V_set_error e) v1)
              | Inr prev_range \<Rightarrow>
                  let sync_prev = root_log_sync env kSpeculative (upper_bound prev_range);
                      v2 = record_event (V_sync kSpeculative (upper_bound prev_range) sync_prev) v1
                  in if sync_prev \<noteq> OkStatus
                     then (Inl (Status sync_prev), Some (snd (set_error sync_prev s)),
                           record_event (V_set_error sync_prev) v2)
                     else (Inr (), Some s, v2)))"

text \<open>
  Phase 1, first half: append the prepare slot; with a sequencer, \<open>set_error\<close> on
  failure and \<open>set_current\<close> on success, each under a \<open>BATT_CHECK\<close> that the call
  did set the slot; then \<open>BATT_REQUIRE_OK(prepare_slot)\<close>.
\<close>

definition append_prepare_slot ::
  "volume_env \<Rightarrow> AppendableJob \<Rightarrow> Grant \<Rightarrow> SlotSequencer option \<Rightarrow> Volume \<Rightarrow>
   SlotRange status_or \<times> Grant \<times> SlotSequencer option \<times> Volume" where
  "append_prepare_slot env appendable g sequencer v =
     (case slot_writer_append (packed_sizeof_slot env (prepare appendable)) g (slot_writer v) of
        Inl f \<Rightarrow>
          (case sequencer of
             None \<Rightarrow> (Inl f, g, None, v)
           | Some s \<Rightarrow>
               let e = (case f of Status c \<Rightarrow> c | _ \<Rightarrow> kUnknown);
                   (was_set, s1) = set_error e s;
                   v1 = record_event (V_set_error e) v
               in if \<not> was_set
                  then (Inl (Check_failed ''each slot within a sequence may only be set once!''),
                        g, Some s1, v1)
                  else (Inl f, g, Some s1, v1))
      | Inr (prepare_slot, g1, w1) \<Rightarrow>
          let v1 = record_event (V_append prepare_slot (prepare appendable)) (v\<lparr>slot_writer := w1\<rparr>)
          in (case sequencer of
                None \<Rightarrow> (Inr prepare_slot, g1, None, v1)
              | Some s \<Rightarrow>
                  let (was_set, s1) = set_current prepare_slot s;
                      v2 = record_event (V_set_current prepare_slot) v1
                  in if \<not> was_set
                     then (Inl (Check_failed ''each slot within a sequence may only be set once!''),
                           g1, Some s1, v2)
                     else (Inr prepare_slot, g1, Some s1, v2)))"

text \<open>
  Phase 1, second half, and phase 2: flush the prepare slot to durable storage, commit
  the job with the prepare slot's lower bound as \<open>caller_slot\<close>, and append the commit
  slot with the same grant. \<open>BATT_UNTESTED_COND(!sync_prepare.ok())\<close> aborts the
  process when the durable sync fails, so the \<open>BATT_REQUIRE_OK(sync_prepare)\<close> behind
  it never returns a status.
\<close>

definition append_commit ::
  "volume_env \<Rightarrow> AppendableJob \<Rightarrow> SlotRange \<Rightarrow> Grant \<Rightarrow> Volume \<Rightarrow>
   SlotRange status_or \<times> Grant \<times> Volume" where
  "append_commit env appendable prepare_slot g v =
     (let sync_prepare = root_log_sync env kDurable (upper_bound prepare_slot);
          v1 = record_event (V_sync kDurable (upper_bound prepare_slot) sync_prepare) v
      in if sync_prepare \<noteq> OkStatus then (Inl (Check_failed ''Add test point!''), g, v1)
         else if sync_prepare \<noteq> OkStatus then (Inl (Status sync_prepare), g, v1)
         else
           let params = \<lparr> caller_uuid = volume_uuid v1,
                           caller_slot = lower_bound prepare_slot,
                           recycle_grant = None,
                           recycle_depth = 0 \<rparr>;
               commit_job_result = commit env (job appendable) params;
               v2 = record_event (V_commit (job appendable) params commit_job_result) v1
           in if commit_job_result \<noteq> OkStatus then (Inl (Status commit_job_result), g, v2)
              else
                (case slot_writer_append
                        (packed_sizeof_slot env (PackedCommitJob (lower_bound prepare_slot)))
                        g (slot_writer v2) of
                   Inl f \<Rightarrow> (Inl f, g, v2)
                 | Inr (commit_slot, g1, w1) \<Rightarrow>
                     (Inr \<lparr> lower_bound = lower_bound prepare_slot,
                            upper_bound = upper_bound commit_slot \<rparr>,
                      g1,
                      record_event
                        (V_append commit_slot (PackedCommitJob (lower_bound prepare_slot)))
                        (v2\<lparr>slot_writer := w1\<rparr>))))"

text \<open>
  The scope guard of \<open>Volume::append\<close> runs on every return: a sequencer that was
  passed must be resolved. A failed \<open>BATT_CHECK\<close> has already ended the process.
\<close>

definition check_sequencer_is_resolved ::
  "SlotSequencer option \<Rightarrow> SlotRange status_or \<Rightarrow> SlotRange status_or" where
  "check_sequencer_is_resolved sequencer r =
     (case r of
        Inl (Check_failed m) \<Rightarrow> r
      | _ \<Rightarrow>
          (case sequencer of
             None \<Rightarrow> r
           | Some s \<Rightarrow>
               if is_resolved s then r
               else Inl (Check_failed
                      ''If a SlotSequencer is passed, it must be resolved even on failure paths.'')))"

definition append_job ::
  "volume_env \<Rightarrow> AppendableJob \<Rightarrow> Grant \<Rightarrow> SlotSequencer option \<Rightarrow> Volume \<Rightarrow>
   SlotRange status_or \<times> Grant \<times> SlotSequencer option \<times> Volume" where
  "append_job env appendable g sequencer v =
     (case append_phase0 env sequencer v of
        (Inl f, sequencer0, v0) \<Rightarrow> (check_sequencer_is_resolved sequencer0 (Inl f), g, sequencer0, v0)
      | (Inr u, sequencer0, v0) \<Rightarrow>
          (case append_prepare_slot env appendable g sequencer0 v0 of
             (Inl f, g1, sequencer1, v1) \<Rightarrow>
               (check_sequencer_is_resolved sequencer1 (Inl f), g1, sequencer1, v1)
           | (Inr prepare_slot, g1, sequencer1, v1) \<Rightarrow>
               (case append_commit env appendable prepare_slot g1 v1 of
                  (r, g2, v2) \<Rightarrow> (check_sequencer_is_resolved sequencer1 r, g2, sequencer1, v2))))"

text \<open>Kinds of events, for statements about what a call did and did not do.\<close>

definition is_commit :: "volume_event \<Rightarrow> bool" where
  "is_commit e = (case e of V_commit j p st \<Rightarrow> True | _ \<Rightarrow> False)"

definition is_set_error :: "volume_event \<Rightarrow> bool" where
  "is_set_error e = (case e of V_set_error st \<Rightarrow> True | _ \<Rightarrow> False)"

definition is_append :: "volume_event \<Rightarrow> bool" where
  "is_append e = (case e of V_append r p \<Rightarrow> True | _ \<Rightarrow> False)"

text \<open>The slot range the next prepare slot of a job takes.\<close>

definition prepare_slot_range :: "volume_env \<Rightarrow> AppendableJob \<Rightarrow> Volume \<Rightarrow> SlotRange" where
  "prepare_slot_range env a v =
     \<lparr> lower_bound = sw_slot_offset (slot_writer v),
       upper_bound = sw_slot_offset (slot_writer v) + of_nat (packed_sizeof_slot env (prepare a)) \<rparr>"

section \<open>PageRecycler (page_recycler.cpp)\<close>

subsection \<open>Collaborators of the recycler\<close>

type_synonym PageId = u64

record PageToRecycle =
  page_id :: PageId
  slot_offset :: slot_offset_type
  depth :: nat

text \<open>\<open>PageRecycler::Batch\<close>; its \<open>slot_offset\<close> is the field \<open>batch_slot_offset\<close>.\<close>

record Batch =
  to_recycle :: "PageToRecycle list"
  batch_slot_offset :: slot_offset_type

text \<open>The slots of the recycler's log (\<open>PageRecycleEvent\<close>).\<close>

datatype PageRecycleEvent =
    PackedPageRecyclerInfo
  | PackedPageToRecycle PageToRecycle
  | PackedRecyclePagePrepare PageId slot_offset_type
  | PackedRecycleBatchCommit slot_offset_type

text \<open>
  \<open>PageRecyclerOptions\<close>: the batch size and the sizing derivations the modelled
  functions call, as numbers.
\<close>

record PageRecyclerOptions =
  batch_size :: nat
  insert_grant_size :: nat
  info_slot_size :: nat
  recycle_task_target :: nat

text \<open>
  Modelled from the spec: \<open>PageRecycler::State\<close> (its definition is not among the
  sources). The pending pages are kept in insertion order, one entry per page id.
  \<open>insert\<close> of a page that is not pending adds it and returns it; of a page that is
  pending with a depth at least that of the new item it changes nothing and returns the
  empty list; of a page that is pending with a smaller depth it updates the depth and
  returns the item. \<open>get_lru_slot\<close> is the least slot offset of the pending items.
  \<open>collect_batch\<close> removes and returns up to \<open>max_size\<close> items of the greatest depth,
  oldest first. \<open>pending_count\<close> is the number of pending items.
\<close>

definition RecyclerState_insert ::
  "PageToRecycle \<Rightarrow> PageToRecycle list \<Rightarrow> PageToRecycle list \<times> PageToRecycle list" where
  "RecyclerState_insert item pending_items =
     (case find (\<lambda>p. page_id p = page_id item) pending_items of
        None \<Rightarrow> ([item], pending_items @ [item])
      | Some p \<Rightarrow>
          if depth item \<le> depth p then ([], pending_items)
          else ([item],
                map (\<lambda>q. if page_id q = page_id item then q\<lparr>depth := depth item\<rparr> else q)
                  pending_items))"

fun get_lru_slot :: "PageToRecycle list \<Rightarrow> slot_offset_type option" where
  "get_lru_slot [] = None"
| "get_lru_slot (p # ps) = Some (fold (\<lambda>q least. slot_min least (slot_offset q)) ps (slot_offset p))"

definition collect_batch ::
  "nat \<Rightarrow> PageToRecycle list \<Rightarrow> PageToRecycle list \<times> PageToRecycle list" where
  "collect_batch max_size pending_items =
     (let deepest = fold max (map depth pending_items) 0;
          batch = take max_size (filter (\<lambda>p. depth p = deepest) pending_items)
      in (batch, filter (\<lambda>p. page_id p \<notin> set (map page_id batch)) pending_items))"

text \<open>
  The recycler: its options, slot writer, the two grants, the pending pages and the
  latest info slot of its state, the prepared batch, the upper bound of the latest batch
  commit, the stop flag, the durable upper bound of its log device, and what it did so
  far. The stop flag is read where the source reads it; a \<open>halt()\<close> from another thread
  during a call is outside the model.
\<close>

datatype recycler_event =
    R_append SlotRange PageRecycleEvent
  | R_flush slot_offset_type status_code
  | R_delete_pages "PageToRecycle list" slot_offset_type
  | R_delete_pages_returned slot_offset_type status_code
  | R_trim slot_offset_type

record PageRecycler =
  options :: PageRecyclerOptions
  wal_slot_writer :: slot_writer
  recycle_task_grant :: Grant
  insert_grant_pool :: Grant
  pending :: "PageToRecycle list"
  latest_info_refresh_slot :: slot_offset_type
  prepared_batch :: "Batch option"
  latest_batch_upper_bound :: "slot_offset_type option"
  stop_requested :: bool
  wal_durable_upper_bound :: slot_offset_type
  recycler_trace :: "recycler_event list"

definition log_event :: "recycler_event \<Rightarrow> PageRecycler \<Rightarrow> PageRecycler" where
  "log_event e r = r\<lparr>recycler_trace := recycler_trace r @ [e]\<rparr>"

text \<open>
  The collaborators whose code is outside the sources are parameters: the packed size of
  a slot, the outcome of a durable sync of the log device up to an offset, the policy
  \<open>info_needs_refresh\<close>, the page deleter, the retry policy, the constant
  \<open>kMaxPageRefDepth\<close>, and the pages that callers hand to \<open>recycle_pages\<close> while the
  recycle task waits for work.

  Modelled from the spec: \<open>PageDeleter::delete_pages\<close>. Given the number of the
  attempt, the pages and the batch slot, it names the pages it hands back to
  \<open>recycle_pages\<close> with the lent grant, one level deeper, and its status.
\<close>

record recycler_env =
  packed_sizeof :: "PageRecycleEvent \<Rightarrow> nat"
  wal_sync :: "slot_offset_type \<Rightarrow> status_code"
  info_needs_refresh :: "slot_offset_type \<Rightarrow> slot_writer \<Rightarrow> bool"
  delete_pages :: "nat \<Rightarrow> PageToRecycle list \<Rightarrow> slot_offset_type \<Rightarrow> PageId list \<times> status_code"
  status_is_retryable :: "status_code \<Rightarrow> bool"
  max_retries :: nat
  kMaxPageRefDepth :: nat
  waiting_callers :: "PageId list"

subsection \<open>PageRecycler::insert_to_log\<close>

text \<open>The loop that writes the items \<open>insert\<close> returned, keeping the greatest upper bound.\<close>

fun append_items ::
  "recycler_env \<Rightarrow> PageToRecycle list \<Rightarrow> slot_offset_type \<Rightarrow> Grant \<Rightarrow> PageRecycler \<Rightarrow>
   slot_offset_type status_or \<times> Grant \<times> PageRecycler" where
  "append_items env [] last_slot g r = (Inr last_slot, g, r)"
| "append_items env (item # items) last_slot g r =
     (case slot_writer_append (packed_sizeof env (PackedPageToRecycle item)) g (wal_slot_writer r) of
        Inl f \<Rightarrow> (Inl f, g, r)
      | Inr (append_slot, g1, w1) \<Rightarrow>
          append_items env items (slot_max last_slot (upper_bound append_slot)) g1
            (log_event (R_append append_slot (PackedPageToRecycle item))
               (r\<lparr>wal_slot_writer := w1\<rparr>)))"

definition insert_to_log ::
  "recycler_env \<Rightarrow> Grant \<Rightarrow> PageId \<Rightarrow> nat \<Rightarrow> PageRecycler \<Rightarrow>
   slot_offset_type status_or \<times> Grant \<times> PageRecycler" where
  "insert_to_log env g pid d r =
     (let current_slot = sw_slot_offset (wal_slot_writer r);
          (to_append, pending1) =
             RecyclerState_insert \<lparr> page_id = pid, slot_offset = current_slot, depth = d \<rparr> (pending r);
          r1 = r\<lparr>pending := pending1\<rparr>
      in if to_append = [] then (Inr current_slot, g, r1)
         else
           (case append_items env to_append current_slot g r1 of
              (Inl f, g2, r2) \<Rightarrow> (Inl f, g2, r2)
            | (Inr last_slot, g2, r2) \<Rightarrow>
                if sw_slot_offset (wal_slot_writer r2) = current_slot
                then (Inl (Check_failed ''slot_writer_.slot_offset() != current_slot''), g2, r2)
                else (Inr last_slot, g2, r2)))"

subsection \<open>PageRecycler::recycle_pages\<close>

text \<open>
  Without a caller's grant every page spends \<open>insert_grant_size()\<close> from the insert
  grant pool; what \<open>insert_to_log\<close> leaves of that local grant goes back to the pool of
  the slot writer when the grant is destroyed.
\<close>

fun recycle_pages_from_pool ::
  "recycler_env \<Rightarrow> PageId list \<Rightarrow> nat \<Rightarrow> slot_offset_type option \<Rightarrow> PageRecycler \<Rightarrow>
   slot_offset_type option status_or \<times> PageRecycler" where
  "recycle_pages_from_pool env [] d sync_point r = (Inr sync_point, r)"
| "recycle_pages_from_pool env (pid # pids) d sync_point r =
     (case grant_spend_wait (insert_grant_size (options r)) (insert_grant_pool r) of
        Inl f \<Rightarrow> (Inl f, r)
      | Inr (local_grant, pool1) \<Rightarrow>
          (case insert_to_log env local_grant pid d (r\<lparr>insert_grant_pool := pool1\<rparr>) of
             (Inl f, g1, r1) \<Rightarrow>
               (Inl f, r1\<lparr>wal_slot_writer := release_grant g1 (wal_slot_writer r1)\<rparr>)
           | (Inr append_slot, g1, r1) \<Rightarrow>
               recycle_pages_from_pool env pids d (clamp_min_slot sync_point append_slot)
                 (r1\<lparr>wal_slot_writer := release_grant g1 (wal_slot_writer r1)\<rparr>)))"

fun recycle_pages_with_grant ::
  "recycler_env \<Rightarrow> PageId list \<Rightarrow> nat \<Rightarrow> slot_offset_type option \<Rightarrow> Grant \<Rightarrow> PageRecycler \<Rightarrow>
   slot_offset_type option status_or \<times> Grant \<times> PageRecycler" where
  "recycle_pages_with_grant env [] d sync_point g r = (Inr sync_point, g, r)"
| "recycle_pages_with_grant env (pid # pids) d sync_point g r =
     (case insert_to_log env g pid d r of
        (Inl f, g1, r1) \<Rightarrow> (Inl f, g1, r1)
      | (Inr append_slot, g1, r1) \<Rightarrow>
          recycle_pages_with_grant env pids d (clamp_min_slot sync_point append_slot) g1 r1)"

definition recycle_pages ::
  "recycler_env \<Rightarrow> PageId list \<Rightarrow> Grant option \<Rightarrow> nat \<Rightarrow> PageRecycler \<Rightarrow>
   slot_offset_type status_or \<times> Grant option \<times> PageRecycler" where
  "recycle_pages env page_ids grant d r =
     (if page_ids = [] then (Inr (wal_durable_upper_bound r), grant, r)
      else
        (case grant of
           None \<Rightarrow>
             if d \<noteq> 0 then (Inl (Check_failed ''depth == 0''), None, r)
             else
               (case recycle_pages_from_pool env page_ids d None r of
                  (Inl f, r1) \<Rightarrow> (Inl f, None, r1)
                | (Inr None, r1) \<Rightarrow> (Inl (Check_failed ''sync_point''), None, r1)
                | (Inr (Some sync_point), r1) \<Rightarrow> (Inr sync_point, None, r1))
         | Some g \<Rightarrow>
             if \<not> d < kMaxPageRefDepth env
             then (Inl (Check_failed ''depth < kMaxPageRefDepth''), Some g, r)
             else
               (case recycle_pages_with_grant env page_ids d None g r of
                  (Inl f, g1, r1) \<Rightarrow> (Inl f, Some g1, r1)
                | (Inr None, g1, r1) \<Rightarrow> (Inl (Check_failed ''sync_point''), Some g1, r1)
                | (Inr (Some sync_point), g1, r1) \<Rightarrow> (Inr sync_point, Some g1, r1))))"

subsection \<open>PageRecycler::await_flush\<close>

definition await_flush ::
  "recycler_env \<Rightarrow> slot_offset_type option \<Rightarrow> PageRecycler \<Rightarrow> status_code \<times> PageRecycler" where
  "await_flush env min_upper_bound r =
     (case min_upper_bound of
        None \<Rightarrow> (OkStatus, r)
      | Some ub \<Rightarrow>
          let st = wal_sync env ub;
              r1 = (if st = OkStatus
                    then r\<lparr>wal_durable_upper_bound := slot_max (wal_durable_upper_bound r) ub\<rparr>
                    else r)
          in (st, log_event (R_flush ub st) r1))"

subsection \<open>PageRecycler::prepare_batch\<close>

text \<open>
  The loop over \<open>batch.to_recycle\<close>. Both branches after a failed append return the
  status of the append.
\<close>

fun write_prepare_slots ::
  "recycler_env \<Rightarrow> Batch \<Rightarrow> PageToRecycle list \<Rightarrow> slot_offset_type option \<Rightarrow> PageRecycler \<Rightarrow>
   slot_offset_type option status_or \<times> PageRecycler" where
  "write_prepare_slots env batch [] sync_upper_bound r = (Inr sync_upper_bound, r)"
| "write_prepare_slots env batch (next_page # pages) sync_upper_bound r =
     (if stop_requested r then (Inl (Status kCancelled), r)
      else
        (case slot_writer_append
                (packed_sizeof env
                   (PackedRecyclePagePrepare (page_id next_page) (batch_slot_offset batch)))
                (recycle_task_grant r) (wal_slot_writer r) of
           Inl f \<Rightarrow>
             if stop_requested r \<and> grant_size (recycle_task_grant r) = 0 then (Inl f, r)
             else (Inl f, r)
         | Inr (append_slot, g1, w1) \<Rightarrow>
             write_prepare_slots env batch pages
               (clamp_min_slot sync_upper_bound (upper_bound append_slot))
               (log_event
                  (R_append append_slot
                     (PackedRecyclePagePrepare (page_id next_page) (batch_slot_offset batch)))
                  (r\<lparr>wal_slot_writer := w1, recycle_task_grant := g1\<rparr>))))"

definition prepare_batch ::
  "recycler_env \<Rightarrow> PageToRecycle list \<Rightarrow> PageRecycler \<Rightarrow> Batch status_or \<times> PageRecycler" where
  "prepare_batch env pages r =
     (let batch = \<lparr> to_recycle = pages,
                    batch_slot_offset = sw_slot_offset (wal_slot_writer r) \<rparr>
      in (case write_prepare_slots env batch (to_recycle batch) None r of
            (Inl f, r1) \<Rightarrow> (Inl f, r1)
          | (Inr None, r1) \<Rightarrow> (Inl Deref_empty_optional, r1)
          | (Inr (Some sync_upper_bound), r1) \<Rightarrow>
              (case await_flush env (Some sync_upper_bound) r1 of
                 (flush_status, r2) \<Rightarrow>
                   if flush_status \<noteq> OkStatus then (Inl (Status flush_status), r2)
                   else (Inr batch, r2))))"

subsection \<open>PageRecycler::commit_batch\<close>

text \<open>
  Modelled from the spec: \<open>with_retry_policy\<close> with the default exponential backoff.
  The action runs once and is run again, at most \<open>max_retries\<close> times, while it
  fails with a status the policy retries.
\<close>

fun with_retry_policy ::
  "(status_code \<Rightarrow> bool) \<Rightarrow> nat \<Rightarrow> (nat \<Rightarrow> 's \<Rightarrow> unit status_or \<times> 's) \<Rightarrow> nat \<Rightarrow> 's \<Rightarrow>
   unit status_or \<times> 's" where
  "with_retry_policy retryable 0 action attempt s = action attempt s"
| "with_retry_policy retryable (Suc n) action attempt s =
     (case action attempt s of
        (Inl (Status e), s1) \<Rightarrow>
          if retryable e then with_retry_policy retryable n action (Suc attempt) s1
          else (Inl (Status e), s1)
      | (res, s1) \<Rightarrow> (res, s1))"

text \<open>
  One run of the action of \<open>commit_batch\<close>: the stop flag, then \<open>delete_pages\<close> with
  the batch slot as key and the recycle task grant lent to it. The pages the deleter
  hands back are recycled with that grant one level below the batch; a failure there is
  the deleter's failure.
\<close>

definition batch_depth :: "Batch \<Rightarrow> nat" where
  "batch_depth batch = (case to_recycle batch of [] \<Rightarrow> 0 | p # ps \<Rightarrow> depth p)"

definition delete_batch_pages ::
  "recycler_env \<Rightarrow> Batch \<Rightarrow> nat \<Rightarrow> PageRecycler \<Rightarrow> unit status_or \<times> PageRecycler" where
  "delete_batch_pages env batch attempt r =
     (if stop_requested r then (Inl (Status kRecyclerStopped), r)
      else
        (case delete_pages env attempt (to_recycle batch) (batch_slot_offset batch) of
           (dropped_refs, delete_result) \<Rightarrow>
             (case recycle_pages env dropped_refs (Some (recycle_task_grant r))
                     (Suc (batch_depth batch))
                     (log_event (R_delete_pages (to_recycle batch) (batch_slot_offset batch)) r) of
                (Inl (Status e), g1, r1) \<Rightarrow>
                  (Inl (Status e),
                   log_event (R_delete_pages_returned (batch_slot_offset batch) e)
                     (r1\<lparr>recycle_task_grant := case_option (recycle_task_grant r1) id g1\<rparr>))
              | (Inl f, g1, r1) \<Rightarrow> (Inl f, r1)
              | (Inr s, g1, r1) \<Rightarrow>
                  (if delete_result = OkStatus then Inr () else Inl (Status delete_result),
                   log_event (R_delete_pages_returned (batch_slot_offset batch) delete_result)
                     (r1\<lparr>recycle_task_grant := case_option (recycle_task_grant r1) id g1\<rparr>)))))"

definition commit_batch ::
  "recycler_env \<Rightarrow> Batch \<Rightarrow> PageRecycler \<Rightarrow> unit status_or \<times> PageRecycler" where
  "commit_batch env batch r =
     (case with_retry_policy (status_is_retryable env) (max_retries env)
             (delete_batch_pages env batch) 0 r of
        (Inl f, r1) \<Rightarrow> (Inl f, r1)
      | (Inr u, r1) \<Rightarrow>
          if stop_requested r1 then (Inl (Status kRecyclerStopped), r1)
          else
            (case slot_writer_append
                    (packed_sizeof env (PackedRecycleBatchCommit (batch_slot_offset batch)))
                    (recycle_task_grant r1) (wal_slot_writer r1) of
               Inl f \<Rightarrow> (Inl f, r1)
             | Inr (append_slot, g1, w1) \<Rightarrow>
                 (case await_flush env (Some (upper_bound append_slot))
                         (log_event
                            (R_append append_slot
                               (PackedRecycleBatchCommit (batch_slot_offset batch)))
                            (r1\<lparr>wal_slot_writer := w1, recycle_task_grant := g1\<rparr>)) of
                    (flush_status, r2) \<Rightarrow>
                      if flush_status \<noteq> OkStatus then (Inl (Status flush_status), r2)
                      else (Inr (),
                            r2\<lparr>latest_batch_upper_bound := Some (upper_bound append_slot)\<rparr>))))"

subsection \<open>PageRecycler::refresh_grants\<close>

definition refresh_grants :: "PageRecycler \<Rightarrow> unit status_or \<times> PageRecycler" where
  "refresh_grants r =
     (let available = sw_pool_size (wal_slot_writer r);
          target = recycle_task_target (options r)
      in (case
            (if grant_size (recycle_task_grant r) < target
             then
               let target_delta = min available (target - grant_size (recycle_task_grant r));
                   tmp = slot_writer_reserve target_delta (wal_slot_writer r)
               in if stop_requested r then Inl (Inr ())
                  else
                    (case tmp of
                       Inl f \<Rightarrow> Inl (Inl (Check_failed ''tmp.ok()''))
                     | Inr (tmp_grant, w1) \<Rightarrow>
                         Inr (available - target_delta,
                              r\<lparr>wal_slot_writer := w1,
                                recycle_task_grant := grant_subsume (recycle_task_grant r) tmp_grant\<rparr>))
             else Inr (available, r)) of
            Inl early \<Rightarrow> (early, r)
          | Inr (available1, r1) \<Rightarrow>
              if 0 < available1
              then
                if stop_requested r1 then (Inr (), r1)
                else if grant_size (recycle_task_grant r1) \<noteq> target
                then (Inl (Check_failed
                        ''The recycle task grant must take priority over the insert grant pool!''), r1)
                else
                  (case slot_writer_reserve available1 (wal_slot_writer r1) of
                     Inl f \<Rightarrow> (Inl (Check_failed ''ok_result_or_panic''), r1)
                   | Inr (grant, w2) \<Rightarrow>
                       if issuer (insert_grant_pool r1) \<noteq> issuer grant
                       then (Inl (Check_failed ''insert_grant_pool_.get_issuer() == grant.get_issuer()''), r1)
                       else (Inr (),
                             r1\<lparr>wal_slot_writer := w2,
                                insert_grant_pool := grant_subsume (insert_grant_pool r1) grant\<rparr>))
              else (Inr (), r1)))"

subsection \<open>refresh_recycler_info_slot and PageRecycler::trim_log\<close>

text \<open>
  Without a grant of the caller the function reserves one for the packed info slot; what
  is left of a local grant goes back to the pool. It appends the info slot, syncs the
  log up to its upper bound in durable mode and returns its slot range.
\<close>

definition refresh_recycler_info_slot ::
  "recycler_env \<Rightarrow> Grant option \<Rightarrow> PageRecycler \<Rightarrow>
   SlotRange status_or \<times> Grant option \<times> PageRecycler" where
  "refresh_recycler_info_slot env slot_grant r =
     (case (case slot_grant of
              Some g \<Rightarrow> Inr (g, r)
            | None \<Rightarrow>
                (case slot_writer_reserve (packed_sizeof env PackedPageRecyclerInfo)
                        (wal_slot_writer r) of
                   Inl f \<Rightarrow> Inl f
                 | Inr (g, w1) \<Rightarrow> Inr (g, r\<lparr>wal_slot_writer := w1\<rparr>))) of
        Inl f \<Rightarrow> (Inl f, slot_grant, r)
      | Inr (g, r0) \<Rightarrow>
          (case slot_writer_append (packed_sizeof env PackedPageRecyclerInfo) g
                  (wal_slot_writer r0) of
             Inl f \<Rightarrow>
               (Inl f, slot_grant,
                if slot_grant = None
                then r0\<lparr>wal_slot_writer := release_grant g (wal_slot_writer r0)\<rparr> else r0)
           | Inr (slot_range, g1, w1) \<Rightarrow>
               (case await_flush env (Some (upper_bound slot_range))
                       (log_event (R_append slot_range PackedPageRecyclerInfo)
                          (r0\<lparr>wal_slot_writer := w1\<rparr>)) of
                  (sync_status, r1) \<Rightarrow>
                    (let r2 = (if slot_grant = None
                               then r1\<lparr>wal_slot_writer := release_grant g1 (wal_slot_writer r1)\<rparr>
                               else r1);
                         grant_left = (if slot_grant = None then None else Some g1)
                     in if sync_status \<noteq> OkStatus then (Inl (Status sync_status), grant_left, r2)
                        else (Inr slot_range, grant_left, r2)))))"

text \<open>
  The trim point of \<open>trim_log\<close>: \<open>slot_min\<close> of the least pending slot and the upper
  bound of the latest batch commit when both are there, else the one that is there; with
  neither the \<open>BATT_CHECK\<close> of the last branch fails.
\<close>

definition trim_point_of ::
  "slot_offset_type option \<Rightarrow> slot_offset_type option \<Rightarrow> slot_offset_type \<Rightarrow>
   slot_offset_type status_or" where
  "trim_point_of lru_slot latest_batch latest_info_slot =
     (case (lru_slot, latest_batch) of
        (Some lru, Some batch_upper) \<Rightarrow> Inr (slot_min lru batch_upper)
      | (Some lru, None) \<Rightarrow> Inr lru
      | (None, Some batch_upper) \<Rightarrow> Inr batch_upper
      | (None, None) \<Rightarrow> Inl (Check_failed ''this->latest_batch_upper_bound_''))"

text \<open>
  The refresh of the info slot inside \<open>trim_log\<close>: spend \<open>info_slot_size()\<close> from the
  recycle task grant, write the slot, and make its lower bound the latest info slot. The
  rest of the spent grant goes back to the pool at the end of the block.
\<close>

definition refresh_info_for_trim ::
  "recycler_env \<Rightarrow> PageRecycler \<Rightarrow> slot_offset_type status_or \<times> PageRecycler" where
  "refresh_info_for_trim env r =
     (case grant_spend (info_slot_size (options r)) (recycle_task_grant r) of
        Inl f \<Rightarrow>
          if \<not> stop_requested r then (Inl (Check_failed ''this->stop_requested_''), r)
          else (Inl (Status kRecyclerStopped), r)
      | Inr (info_slot_grant, task_grant1) \<Rightarrow>
          let r1 = r\<lparr>recycle_task_grant := task_grant1\<rparr>
          in if stop_requested r1
             then (Inl (Status kRecyclerStopped),
                   r1\<lparr>wal_slot_writer := release_grant info_slot_grant (wal_slot_writer r1)\<rparr>)
             else
               (case refresh_recycler_info_slot env (Some info_slot_grant) r1 of
                  (res, grant_left, r2) \<Rightarrow>
                    (let r3 = r2\<lparr>wal_slot_writer :=
                                 release_grant (case_option info_slot_grant id grant_left)
                                   (wal_slot_writer r2)\<rparr>
                     in (case res of
                           Inl f \<Rightarrow> (Inl f, r3)
                         | Inr new_info_slot \<Rightarrow>
                             (Inr (lower_bound new_info_slot),
                              r3\<lparr>latest_info_refresh_slot := lower_bound new_info_slot\<rparr>)))))"

definition trim_log :: "recycler_env \<Rightarrow> PageRecycler \<Rightarrow> unit status_or \<times> PageRecycler" where
  "trim_log env r =
     (let latest_info_slot = latest_info_refresh_slot r;
          lru_slot = get_lru_slot (pending r)
      in (case trim_point_of lru_slot (latest_batch_upper_bound r) latest_info_slot of
            Inl f \<Rightarrow> (Inl f, r)
          | Inr trim_point \<Rightarrow>
              (case (if info_needs_refresh env latest_info_slot (wal_slot_writer r) \<or>
                        latest_info_slot < trim_point
                     then refresh_info_for_trim env r
                     else (Inr latest_info_slot, r)) of
                 (Inl f, r1) \<Rightarrow> (Inl f, r1)
               | (Inr latest_info_slot1, r1) \<Rightarrow>
                   if \<not> trim_point \<le> latest_info_slot1
                   then (Inl (Check_failed ''trim_point <= latest_info_slot''), r1)
                   else
                     (case slot_writer_trim trim_point (wal_slot_writer r1) of
                        Inl f \<Rightarrow> (Inl f, r1)
                      | Inr w1 \<Rightarrow>
                          refresh_grants (log_event (R_trim trim_point) (r1\<lparr>wal_slot_writer := w1\<rparr>))))))"

subsection \<open>PageRecycler::recycle_task_main\<close>

text \<open>
  One round of the loop of the recycle task, which runs until a round returns a status
  that is not ok. Waiting for work: when no page is pending the task waits until the
  pending count is not zero; the pages of \<open>waiting_callers\<close> are what callers recycle
  in the meantime, and if none is pending after that the wait ends when the count is
  closed.
\<close>

definition wait_for_work :: "recycler_env \<Rightarrow> PageRecycler \<Rightarrow> unit status_or \<times> PageRecycler" where
  "wait_for_work env r =
     (let observed_pending_count = length (pending r)
      in if observed_pending_count = 0
         then
           (case recycle_pages env (waiting_callers env) None 0 r of
              (res, g, r1) \<Rightarrow>
                if length (pending r1) = 0 then (Inl (Status kHalted), r1) else (Inr (), r1))
         else (Inr (), r))"

definition recycle_task_round :: "recycler_env \<Rightarrow> PageRecycler \<Rightarrow> unit status_or \<times> PageRecycler" where
  "recycle_task_round env r =
     (case (case prepared_batch r of
              None \<Rightarrow> (Inr (), r)
            | Some batch_to_commit \<Rightarrow>
                (case commit_batch env batch_to_commit (r\<lparr>prepared_batch := None\<rparr>) of
                   (Inl f, r1) \<Rightarrow> (Inl f, r1)
                 | (Inr u, r1) \<Rightarrow> trim_log env r1)) of
        (Inl f, r1) \<Rightarrow> (Inl f, r1)
      | (Inr u, r1) \<Rightarrow>
          (case wait_for_work env r1 of
             (Inl f, r2) \<Rightarrow> (Inl f, r2)
           | (Inr u, r2) \<Rightarrow>
               (case collect_batch (batch_size (options r2)) (pending r2) of
                  (pages, pending1) \<Rightarrow>
                    (case prepare_batch env pages (r2\<lparr>pending := pending1\<rparr>) of
                       (Inl f, r3) \<Rightarrow> (Inl f, r3)
                     | (Inr batch, r3) \<Rightarrow> (Inr (), r3\<lparr>prepared_batch := Some batch\<rparr>)))))"

subsection \<open>Reading the trace of the recycler\<close>

text \<open>The slots a run appended, in order.\<close>

definition appended_slots :: "recycler_event list \<Rightarrow> (SlotRange \<times> PageRecycleEvent) list" where
  "appended_slots tr = concat (map (\<lambda>e. case e of R_append sr p \<Rightarrow> [(sr, p)] | _ \<Rightarrow> []) tr)"

definition is_batch_commit :: "recycler_event \<Rightarrow> bool" where
  "is_batch_commit e =
     (case e of R_append sr (PackedRecycleBatchCommit b) \<Rightarrow> True | _ \<Rightarrow> False)"

definition is_delete_pages :: "recycler_event \<Rightarrow> bool" where
  "is_delete_pages e = (case e of R_delete_pages pages b \<Rightarrow> True | _ \<Rightarrow> False)"

text \<open>
  For the proofs about slot offsets: the events \<open>new\<close> are appends of page insertions
  only, their upper bounds lie \<open>a\<close> to \<open>a'\<close> bytes behind the offset \<open>base\<close>, and
  the last one ends \<open>a'\<close> bytes behind it (with no event, \<open>a' = a\<close>).
\<close>

definition inserts_between :: "slot_offset_type \<Rightarrow> nat \<Rightarrow> nat \<Rightarrow> recycler_event list \<Rightarrow> bool" where
  "inserts_between base a a' new =
     (a \<le> a' \<and>
      (\<forall>sr p. R_append sr p \<in> set new \<longrightarrow>
         (\<exists>j. a \<le> j \<and> j \<le> a' \<and> upper_bound sr = base + of_nat j)) \<and>
      (\<forall>e \<in> set new. \<exists>sr it. e = R_append sr (PackedPageToRecycle it)) \<and>
      (new = [] \<longrightarrow> a' = a) \<and>
      (new \<noteq> [] \<longrightarrow> (\<exists>sr p. last new = R_append sr p \<and> upper_bound sr = base + of_nat a')))"

definition example_config :: "u16 \<Rightarrow> PackedLogDeviceConfig" where
  "example_config n =
     \<lparr> tag = 1, pad0 = [0, 0], pages_per_block_log2 = n, block_0_offset = 4096,
       physical_size = 1052672, logical_size = 1048576,
       uuid = replicate 16 7, pad1 = replicate 16 0 \<rparr>"

subsection \<open>A concrete volume\<close>

text \<open>
  The simple append scenario: a fresh volume, a prepare slot of 64 bytes, a commit slot of
  16 bytes and a grant of 256 bytes; every collaborator succeeds. In the second
  environment the durable sync fails. \<open>short_grant\<close> is too small for the prepare
  slot.
\<close>

definition ok_env :: volume_env where
  "ok_env =
     \<lparr> root_log_sync = (\<lambda>m off. OkStatus),
       commit = (\<lambda>j p. OkStatus),
       update_lock = (\<lambda>held target. OkStatus),
       packed_sizeof_slot =
         (\<lambda>e. case e of PackedPrepareJob a \<Rightarrow> 64 | PackedCommitJob s \<Rightarrow> 16 | _ \<Rightarrow> 32) \<rparr>"

definition flush_fails_env :: volume_env where
  "flush_fails_env =
     ok_env\<lparr>root_log_sync := (\<lambda>m off. if m = kDurable then kLogIO else OkStatus)\<rparr>"

definition fresh_volume :: Volume where
  "fresh_volume =
     \<lparr> volume_uuid = 1,
       slot_writer = \<lparr> sw_pool = 0, sw_slot_offset = 0, sw_trim_pos = 0,
                       sw_pool_size = 4096, sw_halted = False \<rparr>,
       trim_lock = Some \<lparr> lower_bound = 0, upper_bound = 0 \<rparr>,
       volume_trace = [] \<rparr>"

definition example_job :: AppendableJob where
  "example_job = \<lparr> job = 7, user_data = [] \<rparr>"

definition example_grant :: Grant where
  "example_grant = \<lparr> issuer = 0, grant_size = 256 \<rparr>"


definition first_sequencer :: SlotSequencer where
  "first_sequencer = \<lparr> prev = Inr \<lparr> lower_bound = 0, upper_bound = 0 \<rparr>, current = None \<rparr>"

definition simple_append ::
  "SlotRange status_or \<times> Grant \<times> SlotSequencer option \<times> Volume" where
  "simple_append =
     append_job ok_env example_job example_grant (Some first_sequencer) fresh_volume"


definition trimmed_to_10 :: Volume where
  "trimmed_to_10 = snd (trim ok_env 10 fresh_volume)"

subsection \<open>A concrete recycler\<close>

text \<open>
  A recycler whose log has reached offset 100, with slots of 24 (page insertion), 20
  (prepare), 12 (batch commit) and 48 bytes (info), and a page deleter that succeeds and
  hands back no pages. \<open>recycled_once\<close> is the recycler after \<open>recycle_pages([1])\<close>.
\<close>

definition rec_env :: recycler_env where
  "rec_env =
     \<lparr> packed_sizeof =
         (\<lambda>e. case e of PackedPageRecyclerInfo \<Rightarrow> 48 | PackedPageToRecycle p \<Rightarrow> 24
                | PackedRecyclePagePrepare p b \<Rightarrow> 20 | PackedRecycleBatchCommit b \<Rightarrow> 12),
       wal_sync = (\<lambda>off. OkStatus),
       info_needs_refresh = (\<lambda>slot w. False),
       delete_pages = (\<lambda>attempt pages batch_slot. ([], OkStatus)),
       status_is_retryable = (\<lambda>st. False),
       max_retries = 3,
       kMaxPageRefDepth = 32,
       waiting_callers = [] \<rparr>"

definition idle_recycler :: PageRecycler where
  "idle_recycler =
     \<lparr> options = \<lparr> batch_size = 4, insert_grant_size = 24, info_slot_size = 48,
                   recycle_task_target = 512 \<rparr>,
       wal_slot_writer = \<lparr> sw_pool = 0, sw_slot_offset = 100, sw_trim_pos = 0,
                            sw_pool_size = 1000, sw_halted = False \<rparr>,
       recycle_task_grant = \<lparr> issuer = 0, grant_size = 512 \<rparr>,
       insert_grant_pool = \<lparr> issuer = 0, grant_size = 240 \<rparr>,
       pending = [],
       latest_info_refresh_slot = 52,
       prepared_batch = None,
       latest_batch_upper_bound = None,
       stop_requested = False,
       wal_durable_upper_bound = 100,
       recycler_trace = [] \<rparr>"

definition recycled_once :: PageRecycler where
  "recycled_once = snd (snd (recycle_pages rec_env [1] None 0 idle_recycler))"

definition recycled_twice :: PageRecycler where
  "recycled_twice = snd (snd (recycle_pages rec_env [1] None 0 recycled_once))"

definition page_one :: PageToRecycle where
  "page_one = \<lparr> page_id = 1, slot_offset = 100, depth = 0 \<rparr>"

definition batch_one :: Batch where
  "batch_one = \<lparr> to_recycle = [page_one], batch_slot_offset = 100 \<rparr>"

definition prepared_one :: PageRecycler where
  "prepared_one = snd (prepare_batch rec_env [page_one] idle_recycler)"




section \<open>Facts about PackedLogDeviceConfig\<close>

lemma length_little_endian_bytes: "length (little_endian_bytes n w) = n"
  by (induction n arbitrary: w) auto

lemma little_endian_value_bytes:
  "little_endian_value (little_endian_bytes n (w :: 'a::len word)) = (take_bit (8 * n) w :: 'a word)"
proof (induction n arbitrary: w)
  case 0
  show ?case by simp
next
  case (Suc n)
  show ?case
    apply (simp add: Suc)
    apply (rule bit_word_eqI)
    apply (auto simp add: bit_simps)
    done
qed

lemma sizeof_PackedLogDeviceConfig_eq: "sizeof_PackedLogDeviceConfig = 64"
  by (simp add: sizeof_PackedLogDeviceConfig_def PackedLogDeviceConfig_fields_def)

lemma length_packed_bytes:
  "wf_PackedLogDeviceConfig c \<Longrightarrow> length (packed_bytes c) = 64"
  by (simp add: wf_PackedLogDeviceConfig_def packed_bytes_def length_little_endian_bytes)

lemma unpack_packed_bytes:
  assumes "wf_PackedLogDeviceConfig c"
  shows "unpack_bytes (packed_bytes c) = c"
proof -
  have l: "length (pad0 c) = 2" "length (uuid c) = 16" "length (pad1 c) = 16"
    using assms by (simp_all add: wf_PackedLogDeviceConfig_def)
  have t32: "little_endian_value (little_endian_bytes 4 (tag c)) = tag c"
    by (simp add: little_endian_value_bytes take_bit_word_eq_self)
  have t16: "little_endian_value (little_endian_bytes 2 (pages_per_block_log2 c)) = pages_per_block_log2 c"
    by (simp add: little_endian_value_bytes take_bit_word_eq_self)
  have t64: "\<And>w :: u64. little_endian_value (little_endian_bytes 8 w) = w"
    by (simp add: little_endian_value_bytes take_bit_word_eq_self)
  show ?thesis
    unfolding unpack_bytes_def packed_bytes_def
    by (simp add: l length_little_endian_bytes t32 t16 t64)
qed

lemma block_size_exact:
  assumes a: "unat (pages_per_block_log2 c) < 52"
  shows "\<exists>b. block_size c = Some b \<and> unat b = 4 * 1024 * 2 ^ unat (pages_per_block_log2 c)"
proof -
  let ?n = "unat (pages_per_block_log2 c)"
  have "(4096::nat) * 2 ^ ?n = 2 ^ (12 + ?n)" by (simp add: power_add)
  also have "\<dots> < 2 ^ 64" using a by (intro power_strict_increasing) auto
  finally have lt: "(4096::nat) * 2 ^ ?n < 2 ^ 64" .
  have "(4096 :: 64 word) * push_bit ?n 1 = of_nat (4096 * 2 ^ ?n)"
    by (simp add: push_bit_eq_mult)
  then have "unat ((4096 :: 64 word) * push_bit ?n 1) = 4096 * 2 ^ ?n"
    using lt by (simp add: unat_of_nat take_bit_nat_eq_self del: of_nat_mult of_nat_power)
  then show ?thesis
    using a by (simp add: block_size_def pages_per_block_def kKiB_def)
qed

text \<open>
  C9, as stated: the struct occupies \<open>kSize = 64\<close> bytes with little-endian fields, and
  \<open>block_size()\<close> is \<open>4 KiB * 2 ^ pages_per_block_log2\<close>. The size and the byte order
  hold, but the product is computed in 64 bits: with \<open>pages_per_block_log2 = 52\<close>
  the call returns 0, not \<open>2 ^ 64\<close>.
\<close>

theorem C9_block_size_counterexample:
  "block_size (example_config 52) = Some 0 \<and>
   unat (0 :: usize) \<noteq> 4 * 1024 * 2 ^ unat (pages_per_block_log2 (example_config 52)) \<and>
   wf_PackedLogDeviceConfig (example_config 52)"
  by (simp add: block_size_def pages_per_block_def kKiB_def example_config_def
      wf_PackedLogDeviceConfig_def)

text \<open>
  C9, amended: the struct occupies exactly \<open>kSize = 64\<close> bytes (the static assertion of
  the header), its integer fields are stored least significant byte first (the packed
  bytes are 64 long and read back to the same struct), and \<open>block_size()\<close> is
  \<open>4 KiB * 2 ^ pages_per_block_log2\<close> whenever \<open>pages_per_block_log2 < 52\<close>, that
  is whenever that number fits the 64-bit return type.
\<close>

theorem C9_packed_log_device_config:
  "sizeof_PackedLogDeviceConfig = kSize \<and> kSize = 64 \<and>
   (wf_PackedLogDeviceConfig c \<longrightarrow>
      length (packed_bytes c) = kSize \<and> unpack_bytes (packed_bytes c) = c \<and>
      take 4 (packed_bytes c) = little_endian_bytes 4 (tag c) \<and>
      take 2 (drop 6 (packed_bytes c)) = little_endian_bytes 2 (pages_per_block_log2 c)) \<and>
   (unat (pages_per_block_log2 c) < 52 \<longrightarrow>
      (\<exists>b. block_size c = Some b \<and> unat b = 4 * 1024 * 2 ^ unat (pages_per_block_log2 c)))"
proof -
  have k: "kSize = 64" by (simp add: kSize_def PackedConfigSlot_kSize_def)
  have "wf_PackedLogDeviceConfig c \<Longrightarrow>
      take 4 (packed_bytes c) = little_endian_bytes 4 (tag c) \<and>
      take 2 (drop 6 (packed_bytes c)) = little_endian_bytes 2 (pages_per_block_log2 c)"
    by (simp add: packed_bytes_def wf_PackedLogDeviceConfig_def length_little_endian_bytes)
  then show ?thesis
    using k sizeof_PackedLogDeviceConfig_eq length_packed_bytes unpack_packed_bytes block_size_exact
    by auto
qed

theorem C9_packed_log_device_config_witness:
  "wf_PackedLogDeviceConfig (example_config 3) \<and>
   unat (pages_per_block_log2 (example_config 3)) < 52 \<and>
   length (packed_bytes (example_config 3)) = 64 \<and>
   unpack_bytes (packed_bytes (example_config 3)) = example_config 3 \<and>
   block_size (example_config 3) = Some 32768"
proof -
  have w: "wf_PackedLogDeviceConfig (example_config 3)"
    by (simp add: example_config_def wf_PackedLogDeviceConfig_def)
  have n: "unat (pages_per_block_log2 (example_config 3)) < 52"
    by (simp add: example_config_def)
  have b: "block_size (example_config 3) = Some 32768"
    by (simp add: block_size_def pages_per_block_def kKiB_def example_config_def)
  show ?thesis
    using C9_packed_log_device_config [of "example_config 3"] w n b
    by (simp add: kSize_def PackedConfigSlot_kSize_def)
qed

section \<open>Facts about the slot order\<close>

lemma unat_u64_bound: "unat (a :: u64) < 2 ^ 64"
  using unsigned_less [of a, where ?'a = nat] by simp

lemma slot_less_than_unat:
  "slot_less_than a b =
     (unat a \<noteq> unat b \<and>
      (if unat a \<le> unat b then unat b - unat a else unat b + 2 ^ 64 - unat a) < 2 ^ 63)"
  by (simp add: slot_less_than_def word_less_nat_alt word_unat_eq_iff unat_sub_if_size word_size)

lemma slot_less_than_plain:
  assumes "unat a < 2 ^ 63" "unat b < 2 ^ 63"
  shows "slot_less_than a b = (a < b)"
  using assms by (auto simp: slot_less_than_unat word_less_nat_alt)

lemma slot_less_than_irrefl: "\<not> slot_less_than a a"
  by (simp add: slot_less_than_def)

lemma slot_less_than_asym: "slot_less_than a b \<Longrightarrow> \<not> slot_less_than b a"
  using unat_u64_bound [of a] unat_u64_bound [of b]
  by (auto simp: slot_less_than_unat split: if_splits)

lemma slot_max_not_less: "\<not> slot_less_than (slot_max a b) a"
  by (auto simp: slot_max_def slot_less_than_irrefl slot_less_than_asym)

lemma slot_less_than_offset:
  assumes "m < n" "n < 2 ^ 63"
  shows "slot_less_than (a + of_nat m) (a + of_nat n :: u64)"
proof -
  have d: "(a + of_nat n) - (a + of_nat m) = (of_nat (n - m) :: u64)"
    using assms by (simp add: of_nat_diff)
  have u: "unat (of_nat (n - m) :: u64) = n - m"
    using assms by (simp add: unat_of_nat take_bit_nat_eq_self del: of_nat_diff)
  have ne: "a + of_nat m \<noteq> a + of_nat n"
  proof
    assume "a + of_nat m = a + of_nat n"
    then have "(a + of_nat n) - (a + of_nat m) = 0" by simp
    then have "unat (of_nat (n - m) :: u64) = 0" using d by (simp only: unat_0)
    then show False using u assms by simp
  qed
  have "unat ((a + of_nat n) - (a + of_nat m)) < 2 ^ 63"
    using assms u by (simp only: d)
  then show ?thesis
    using ne unfolding slot_less_than_def word_less_nat_alt by simp
qed

lemma slot_max_offset:
  assumes "m \<le> n" "n < 2 ^ 63"
  shows "slot_max (a + of_nat m) (a + of_nat n :: u64) = a + of_nat n"
proof (cases "m = n")
  case True
  then show ?thesis by (simp add: slot_max_def)
next
  case False
  then have "m < n" using assms by simp
  then show ?thesis using slot_less_than_offset assms by (simp add: slot_max_def)
qed

section \<open>Facts about the volume\<close>

lemma record_event_simps [simp]:
  "volume_trace (record_event e v) = volume_trace v @ [e]"
  "slot_writer (record_event e v) = slot_writer v"
  "volume_uuid (record_event e v) = volume_uuid v"
  by (simp_all add: record_event_def)

lemma slot_writer_append_Inl:
  "slot_writer_append n g w = Inl f \<Longrightarrow>
     (f = Status kHalted \<and> sw_halted w) \<or> (f = Status kNoSpace \<and> \<not> sw_halted w \<and> grant_size g < n)"
  by (auto simp: slot_writer_append_def Let_def split: if_splits)

lemma slot_writer_append_Inr:
  "slot_writer_append n g w = Inr (r, g1, w1) \<Longrightarrow>
     \<not> sw_halted w \<and> n \<le> grant_size g \<and>
     r = \<lparr> lower_bound = sw_slot_offset w, upper_bound = sw_slot_offset w + of_nat n \<rparr> \<and>
     g1 = g\<lparr>grant_size := grant_size g - n\<rparr> \<and>
     w1 = w\<lparr>sw_slot_offset := sw_slot_offset w + of_nat n\<rparr>"
  by (auto simp: slot_writer_append_def Let_def split: if_splits)

lemma append_phase0_None [simp]: "append_phase0 env None v = (Inr (), None, v)"
  by (simp add: append_phase0_def)

lemma append_phase0_ok:
  assumes "append_phase0 env sequencer v = (Inr u, sq, v0)"
  shows "sq = sequencer \<and> slot_writer v0 = slot_writer v \<and> volume_uuid v0 = volume_uuid v \<and>
         (\<exists>ph0. volume_trace v0 = volume_trace v @ ph0 \<and>
                filter is_commit ph0 = [] \<and> filter is_append ph0 = [] \<and>
                filter is_set_error ph0 = [])"
  using assms
  by (auto simp: append_phase0_def Let_def is_commit_def is_append_def is_set_error_def
      split: option.splits sum.splits if_splits)

lemma append_phase0_failed:
  assumes "append_phase0 env sequencer v = (Inl f, sq, v0)"
  shows "\<exists>s e ph0. sequencer = Some s \<and> f = Status e \<and> sq = Some (snd (set_error e s)) \<and>
           volume_trace v0 = volume_trace v @ ph0 @ [V_set_error e] \<and>
           filter is_commit ph0 = [] \<and> filter is_append ph0 = []"
  using assms
  by (auto simp: append_phase0_def Let_def is_commit_def is_append_def
      split: option.splits sum.splits if_splits)

lemma is_resolved_set_error [simp]: "is_resolved (snd (set_error e s))"
  by (simp add: set_error_def is_resolved_def)

lemma is_resolved_set_current [simp]: "is_resolved (snd (set_current r s))"
  by (simp add: set_current_def is_resolved_def)



lemma append_prepare_slot_ok:
  assumes "append_prepare_slot env a g sequencer v = (Inr pr, g1, sq1, v1)"
  shows "pr = prepare_slot_range env a v \<and>
         \<not> sw_halted (slot_writer v) \<and>
         packed_sizeof_slot env (prepare a) \<le> grant_size g \<and>
         g1 = g\<lparr>grant_size := grant_size g - packed_sizeof_slot env (prepare a)\<rparr> \<and>
         slot_writer v1 = (slot_writer v)\<lparr>sw_slot_offset := upper_bound pr\<rparr> \<and>
         volume_uuid v1 = volume_uuid v \<and>
         volume_trace v1 = volume_trace v @ V_append pr (prepare a) #
            (case sequencer of None \<Rightarrow> [] | Some s \<Rightarrow> [V_set_current pr]) \<and>
         (case sequencer of None \<Rightarrow> sq1 = None
          | Some s \<Rightarrow> \<not> is_resolved s \<and> sq1 = Some (s\<lparr>current := Some (Inr pr)\<rparr>))"
  using assms
  by (auto simp: append_prepare_slot_def prepare_slot_range_def Let_def set_current_def
      dest!: slot_writer_append_Inr split: option.splits sum.splits if_splits prod.splits)

lemma append_prepare_slot_failed:
  assumes "append_prepare_slot env a g sequencer v = (Inl f, g1, sq1, v1)"
  shows "(sequencer = None \<and> sq1 = None \<and> v1 = v \<and> (\<exists>e. f = Status e)) \<or>
         (\<exists>s e. sequencer = Some s \<and> sq1 = Some (snd (set_error e s)) \<and>
            volume_trace v1 = volume_trace v @ [V_set_error e] \<and>
            (f = Status e \<or> f = Check_failed ''each slot within a sequence may only be set once!'')) \<or>
         (\<exists>s. sequencer = Some s \<and> is_resolved s \<and> sq1 = Some s \<and>
            f = Check_failed ''each slot within a sequence may only be set once!'' \<and>
            volume_trace v1 = volume_trace v @
              [V_append (prepare_slot_range env a v) (prepare a),
               V_set_current (prepare_slot_range env a v)])"
  using assms
  by (auto simp: append_prepare_slot_def prepare_slot_range_def Let_def set_current_def set_error_def
      dest!: slot_writer_append_Inr slot_writer_append_Inl
      split: option.splits sum.splits if_splits prod.splits)

lemma append_commit_cases:
  assumes "append_commit env a pr g v = (r, g2, v2)"
  shows "(\<exists>e. e \<noteq> OkStatus \<and> r = Inl (Check_failed ''Add test point!'') \<and> g2 = g \<and>
            volume_trace v2 = volume_trace v @ [V_sync kDurable (upper_bound pr) e]) \<or>
         (\<exists>p st rest. 
            p = \<lparr> caller_uuid = volume_uuid v, caller_slot = lower_bound pr,
                  recycle_grant = None, recycle_depth = 0 \<rparr> \<and>
            volume_trace v2 = volume_trace v @
              [V_sync kDurable (upper_bound pr) OkStatus, V_commit (job a) p st] @ rest \<and>
            (st \<noteq> OkStatus \<longrightarrow> rest = [] \<and> r = Inl (Status st) \<and> g2 = g) \<and>
            (st = OkStatus \<longrightarrow>
               (\<exists>cr. rest = [V_append cr (PackedCommitJob (lower_bound pr))] \<and>
                  cr = \<lparr> lower_bound = sw_slot_offset (slot_writer v),
                         upper_bound = sw_slot_offset (slot_writer v) +
                           of_nat (packed_sizeof_slot env (PackedCommitJob (lower_bound pr))) \<rparr> \<and>
                  r = Inr \<lparr> lower_bound = lower_bound pr, upper_bound = upper_bound cr \<rparr> \<and>
                  g2 = g\<lparr>grant_size := grant_size g -
                           packed_sizeof_slot env (PackedCommitJob (lower_bound pr))\<rparr> \<and>
                  packed_sizeof_slot env (PackedCommitJob (lower_bound pr)) \<le> grant_size g \<and>
                  \<not> sw_halted (slot_writer v)) \<or>
               (rest = [] \<and> g2 = g \<and>
                  ((r = Inl (Status kHalted) \<and> sw_halted (slot_writer v)) \<or>
                   (r = Inl (Status kNoSpace) \<and>
                    grant_size g < packed_sizeof_slot env (PackedCommitJob (lower_bound pr)))))))"
  using assms
  by (auto simp: append_commit_def Let_def
      dest!: slot_writer_append_Inr slot_writer_append_Inl
      split: option.splits sum.splits if_splits prod.splits)

lemma check_sequencer_is_resolved_id:
  "(case sq of None \<Rightarrow> True | Some s \<Rightarrow> is_resolved s) \<Longrightarrow> check_sequencer_is_resolved sq r = r"
  by (auto simp: check_sequencer_is_resolved_def split: sum.splits failure.splits option.splits)

lemma is_commit_simps [simp]:
  "is_commit (V_commit j p st)" "\<not> is_commit (V_append r e)" "\<not> is_commit (V_sync m off st)"
  "\<not> is_commit (V_set_error c)" "\<not> is_commit (V_set_current r)" "\<not> is_commit (V_await_prev x)"
  by (simp_all add: is_commit_def)

lemma is_append_simps [simp]:
  "\<not> is_append (V_commit j p st)" "is_append (V_append r e)" "\<not> is_append (V_sync m off st)"
  "\<not> is_append (V_set_error c)" "\<not> is_append (V_set_current r)" "\<not> is_append (V_await_prev x)"
  by (simp_all add: is_append_def)

lemma is_set_error_simps [simp]:
  "\<not> is_set_error (V_commit j p st)" "\<not> is_set_error (V_append r e)" "\<not> is_set_error (V_sync m off st)"
  "is_set_error (V_set_error c)" "\<not> is_set_error (V_set_current r)" "\<not> is_set_error (V_await_prev x)"
  by (simp_all add: is_set_error_def)

lemmas volume_eval_defs =
  append_job_def append_phase0_def append_prepare_slot_def append_commit_def
  check_sequencer_is_resolved_def slot_writer_append_def flush_fails_env_def ok_env_def
  example_job_def example_grant_def first_sequencer_def fresh_volume_def record_event_def
  await_prev_def set_current_def set_error_def is_resolved_def prepare_def Let_def

lemma simple_append_eval:
  "simple_append =
     (Inr \<lparr> lower_bound = 0, upper_bound = 80 \<rparr>,
      \<lparr> issuer = 0, grant_size = 176 \<rparr>,
      Some (first_sequencer\<lparr>current := Some (Inr \<lparr> lower_bound = 0, upper_bound = 64 \<rparr>)\<rparr>),
      fresh_volume\<lparr>
        slot_writer := (slot_writer fresh_volume)\<lparr>sw_slot_offset := 80\<rparr>,
        volume_trace :=
          [V_await_prev (Inr \<lparr> lower_bound = 0, upper_bound = 0 \<rparr>),
           V_sync kSpeculative 0 OkStatus,
           V_append \<lparr> lower_bound = 0, upper_bound = 64 \<rparr> (PackedPrepareJob example_job),
           V_set_current \<lparr> lower_bound = 0, upper_bound = 64 \<rparr>,
           V_sync kDurable 64 OkStatus,
           V_commit 7 \<lparr> caller_uuid = 1, caller_slot = 0, recycle_grant = None, recycle_depth = 0 \<rparr> OkStatus,
           V_append \<lparr> lower_bound = 64, upper_bound = 80 \<rparr> (PackedCommitJob 0)]\<rparr>)"
  by (simp add: simple_append_def volume_eval_defs)

subsection \<open>The append pipeline\<close>

text \<open>
  C1. In \<open>Volume::append\<close> of a job the page cache's \<open>commit\<close> runs only after
  the prepare slot has been appended and its upper bound synced in durable mode with
  success: whenever the events of a call contain a commit (and whenever the call returns
  a slot range) they are the events of phase 0, the append of the prepare slot, the
  \<open>set_current\<close> of a sequencer if there is one, the successful durable sync of the
  prepare slot's upper bound, and the commit with \<open>caller_slot = prepare.lower_bound\<close>.
  After a successful commit the commit slot \<open>PackedCommitJob{prepare.lower_bound}\<close> is
  appended right behind the prepare slot, charged to the same grant, and the call
  returns \<open>[prepare.lower_bound, commit.upper_bound)\<close>; this is so whenever the grant
  was sized for both slots, and otherwise the append of the commit slot fails for lack
  of space.
\<close>

theorem C1_prepare_durable_before_commit:
  assumes run: "append_job env appendable g sequencer v = (res, g', sequencer', v')"
  shows "\<exists>new. volume_trace v' = volume_trace v @ new \<and>
     (filter is_commit new \<noteq> [] \<or> (\<exists>r. res = Inr r) \<longrightarrow>
        (\<exists>ph0 pr sc p st rest.
           new = ph0 @ [V_append pr (prepare appendable)] @ sc @
                 [V_sync kDurable (upper_bound pr) OkStatus, V_commit (job appendable) p st] @ rest \<and>
           filter is_commit (ph0 @ sc) = [] \<and> filter is_append (ph0 @ sc) = [] \<and>
           caller_uuid p = volume_uuid v \<and> caller_slot p = lower_bound pr \<and>
           (st \<noteq> OkStatus \<longrightarrow> rest = [] \<and> res = Inl (Status st)) \<and>
           (st = OkStatus \<longrightarrow>
              (if packed_sizeof_slot env (prepare appendable) +
                    packed_sizeof_slot env (PackedCommitJob (lower_bound pr)) \<le> grant_size g
               then \<exists>cr. rest = [V_append cr (PackedCommitJob (lower_bound pr))] \<and>
                    lower_bound cr = upper_bound pr \<and>
                    res = Inr \<lparr>lower_bound = lower_bound pr, upper_bound = upper_bound cr\<rparr> \<and>
                    issuer g' = issuer g \<and>
                    grant_size g' + packed_sizeof_slot env (prepare appendable) +
                      packed_sizeof_slot env (PackedCommitJob (lower_bound pr)) = grant_size g
               else rest = [] \<and> res = Inl (Status kNoSpace)))))"
proof -
  obtain r0 sq0 v0 where p0: "append_phase0 env sequencer v = (r0, sq0, v0)"
    by (cases "append_phase0 env sequencer v") auto
  show ?thesis
  proof (cases r0)
    case (Inl f)
    from append_phase0_failed [OF p0 [unfolded Inl]] obtain s e ph0 where
      h: "sequencer = Some s" "f = Status e" "sq0 = Some (snd (set_error e s))"
         "volume_trace v0 = volume_trace v @ ph0 @ [V_set_error e]"
         "filter is_commit ph0 = []" "filter is_append ph0 = []"
      by blast
    have "res = Inl (Status e)" "v' = v0"
      using run p0 Inl h by (auto simp: append_job_def check_sequencer_is_resolved_id)
    then show ?thesis using h by auto
  next
    case (Inr u)
    from append_phase0_ok [OF p0 [unfolded Inr]] obtain ph0 where
      h0: "sq0 = sequencer" "slot_writer v0 = slot_writer v" "volume_uuid v0 = volume_uuid v"
          "volume_trace v0 = volume_trace v @ ph0"
          "filter is_commit ph0 = []" "filter is_append ph0 = []"
      by blast
    obtain r1 g1 sq1 v1 where p1: "append_prepare_slot env appendable g sq0 v0 = (r1, g1, sq1, v1)"
      by (cases "append_prepare_slot env appendable g sq0 v0") auto
    show ?thesis
    proof (cases r1)
      case (Inl f)
      have rv: "res = check_sequencer_is_resolved sq1 (Inl f)" "v' = v1"
        using run p0 p1 Inr Inl by (auto simp: append_job_def)
      have nr: "\<And>r. res \<noteq> Inr r"
        using rv by (auto simp: check_sequencer_is_resolved_def split: failure.splits option.splits)
      from append_prepare_slot_failed [OF p1 [unfolded Inl]]
      have "\<exists>new. volume_trace v1 = volume_trace v @ new \<and> filter is_commit new = []"
        using h0 by (auto simp: prepare_slot_range_def)
      then show ?thesis using rv nr by auto
    next
      case prep: (Inr pr)
      from append_prepare_slot_ok [OF p1 [unfolded prep]]
      have h1: "pr = prepare_slot_range env appendable v0"
          "\<not> sw_halted (slot_writer v0)"
          "packed_sizeof_slot env (prepare appendable) \<le> grant_size g"
          "g1 = g\<lparr>grant_size := grant_size g - packed_sizeof_slot env (prepare appendable)\<rparr>"
          "slot_writer v1 = (slot_writer v0)\<lparr>sw_slot_offset := upper_bound pr\<rparr>"
          "volume_uuid v1 = volume_uuid v0"
          "volume_trace v1 = volume_trace v0 @ V_append pr (prepare appendable) #
            (case sq0 of None \<Rightarrow> [] | Some s \<Rightarrow> [V_set_current pr])"
          "(case sq0 of None \<Rightarrow> sq1 = None
            | Some s \<Rightarrow> \<not> is_resolved s \<and> sq1 = Some (s\<lparr>current := Some (Inr pr)\<rparr>))"
        by blast+
      define sc where "sc = (case sq0 of None \<Rightarrow> [] | Some s \<Rightarrow> [V_set_current pr])"
      have sc: "filter is_commit sc = []" "filter is_append sc = []"
        by (simp_all add: sc_def split: option.splits)
      have res1: "case sq1 of None \<Rightarrow> True | Some s \<Rightarrow> is_resolved s"
        using h1(8) by (auto simp: is_resolved_def split: option.splits)
      obtain r2 g2 v2 where p2: "append_commit env appendable pr g1 v1 = (r2, g2, v2)"
        by (cases "append_commit env appendable pr g1 v1") auto
      have rv: "res = r2" "g' = g2" "v' = v2"
        using run p0 p1 p2 Inr prep res1
        by (auto simp: append_job_def check_sequencer_is_resolved_id)
      from append_commit_cases [OF p2]
      show ?thesis
      proof (elim disjE exE conjE)
        fix e
        assume "e \<noteq> OkStatus" "r2 = Inl (Check_failed ''Add test point!'')" "g2 = g1"
          "volume_trace v2 = volume_trace v1 @ [V_sync kDurable (upper_bound pr) e]"
        then show ?thesis using rv h0 h1 sc by (auto split: option.splits)
      next
        fix p st rest
        assume a: "p = \<lparr>caller_uuid = volume_uuid v1, caller_slot = lower_bound pr,
                       recycle_grant = None, recycle_depth = 0\<rparr>"
          "volume_trace v2 = volume_trace v1 @
             [V_sync kDurable (upper_bound pr) OkStatus, V_commit (job appendable) p st] @ rest"
          "st \<noteq> OkStatus \<longrightarrow> rest = [] \<and> r2 = Inl (Status st) \<and> g2 = g1"
          "st = OkStatus \<longrightarrow>
             (\<exists>cr. rest = [V_append cr (PackedCommitJob (lower_bound pr))] \<and>
                  cr = \<lparr> lower_bound = sw_slot_offset (slot_writer v1),
                         upper_bound = sw_slot_offset (slot_writer v1) +
                           of_nat (packed_sizeof_slot env (PackedCommitJob (lower_bound pr))) \<rparr> \<and>
                  r2 = Inr \<lparr> lower_bound = lower_bound pr, upper_bound = upper_bound cr \<rparr> \<and>
                  g2 = g1\<lparr>grant_size := grant_size g1 -
                           packed_sizeof_slot env (PackedCommitJob (lower_bound pr))\<rparr> \<and>
                  packed_sizeof_slot env (PackedCommitJob (lower_bound pr)) \<le> grant_size g1 \<and>
                  \<not> sw_halted (slot_writer v1)) \<or>
               (rest = [] \<and> g2 = g1 \<and>
                  ((r2 = Inl (Status kHalted) \<and> sw_halted (slot_writer v1)) \<or>
                   (r2 = Inl (Status kNoSpace) \<and>
                    grant_size g1 < packed_sizeof_slot env (PackedCommitJob (lower_bound pr)))))"
        have new: "volume_trace v' = volume_trace v @
             (ph0 @ [V_append pr (prepare appendable)] @ sc @
                 [V_sync kDurable (upper_bound pr) OkStatus, V_commit (job appendable) p st] @ rest)"
          using a(2) h1(7) h0(4) rv by (simp add: sc_def)
        have f: "filter is_commit (ph0 @ sc) = []" "filter is_append (ph0 @ sc) = []"
          using h0 sc by simp_all
        have pp: "caller_uuid p = volume_uuid v" "caller_slot p = lower_bound pr"
          using a(1) h1(6) h0(3) by simp_all
        have bad: "st \<noteq> OkStatus \<longrightarrow> rest = [] \<and> res = Inl (Status st)"
          using a(3) rv by simp
        have nh: "\<not> sw_halted (slot_writer v1)"
          using h1(2,5) by simp
        have good: "st = OkStatus \<longrightarrow>
              (if packed_sizeof_slot env (prepare appendable) +
                    packed_sizeof_slot env (PackedCommitJob (lower_bound pr)) \<le> grant_size g
               then \<exists>cr. rest = [V_append cr (PackedCommitJob (lower_bound pr))] \<and>
                    lower_bound cr = upper_bound pr \<and>
                    res = Inr \<lparr>lower_bound = lower_bound pr, upper_bound = upper_bound cr\<rparr> \<and>
                    issuer g' = issuer g \<and>
                    grant_size g' + packed_sizeof_slot env (prepare appendable) +
                      packed_sizeof_slot env (PackedCommitJob (lower_bound pr)) = grant_size g
               else rest = [] \<and> res = Inl (Status kNoSpace))"
          using a(4) rv h1(3,4,5) nh by auto
        show ?thesis
          apply (rule exI [where x = "ph0 @ [V_append pr (prepare appendable)] @ sc @
                 [V_sync kDurable (upper_bound pr) OkStatus, V_commit (job appendable) p st] @ rest"])
          apply (rule conjI [OF new])
          apply (rule impI)
          apply (rule exI [where x = ph0], rule exI [where x = pr], rule exI [where x = sc],
                 rule exI [where x = p], rule exI [where x = st], rule exI [where x = rest])
          using f pp bad good by blast
      qed
    qed
  qed
qed

theorem C1_prepare_durable_before_commit_witness:
  "fst simple_append = Inr \<lparr> lower_bound = 0, upper_bound = 80 \<rparr> \<and>
   (\<exists>ph0 pr sc p st rest.
       volume_trace (snd (snd (snd simple_append))) =
         volume_trace fresh_volume @ ph0 @ [V_append pr (prepare example_job)] @ sc @
           [V_sync kDurable (upper_bound pr) OkStatus, V_commit (job example_job) p st] @ rest \<and>
       filter is_commit (ph0 @ sc) = [] \<and> caller_slot p = lower_bound pr)"
proof -
  have run: "append_job ok_env example_job example_grant (Some first_sequencer) fresh_volume =
     (fst simple_append, fst (snd simple_append), fst (snd (snd simple_append)),
      snd (snd (snd simple_append)))"
    by (simp add: simple_append_def)
  have ok: "fst simple_append = Inr \<lparr> lower_bound = 0, upper_bound = 80 \<rparr>"
    by (simp add: simple_append_eval)
  from C1_prepare_durable_before_commit [OF run] ok show ?thesis
    by (simp only: simp_thms) blast
qed

text \<open>
  A failed durable sync of the prepare slot ends the process at
  \<open>BATT_UNTESTED_COND\<close>: the call does not return.
\<close>

lemma durable_sync_failure_aborts:
  "append_job flush_fails_env example_job example_grant (Some first_sequencer) fresh_volume =
     (Inl (Check_failed ''Add test point!''),
      \<lparr> issuer = 0, grant_size = 192 \<rparr>,
      Some (first_sequencer\<lparr>current := Some (Inr \<lparr> lower_bound = 0, upper_bound = 64 \<rparr>)\<rparr>),
      fresh_volume\<lparr>
        slot_writer := (slot_writer fresh_volume)\<lparr>sw_slot_offset := 64\<rparr>,
        volume_trace :=
          [V_await_prev (Inr \<lparr> lower_bound = 0, upper_bound = 0 \<rparr>),
           V_sync kSpeculative 0 OkStatus,
           V_append \<lparr> lower_bound = 0, upper_bound = 64 \<rparr> (PackedPrepareJob example_job),
           V_set_current \<lparr> lower_bound = 0, upper_bound = 64 \<rparr>,
           V_sync kDurable 64 kLogIO]\<rparr>)"
  by (simp add: volume_eval_defs)




subsection \<open>Trimming\<close>

lemma trim_lock_record_event [simp]: "trim_lock (record_event e v) = trim_lock v"
  by (simp add: record_event_def)

lemma trim_ok:
  assumes "trim env x v = (Inr (), v1)"
  shows "\<exists>l. trim_lock v = Some l \<and>
           update_lock env l (l\<lparr>lower_bound := slot_max (lower_bound l) x\<rparr>) = OkStatus \<and>
           trim_lock v1 = Some (l\<lparr>lower_bound := slot_max (lower_bound l) x\<rparr>)"
  using assms by (auto simp: trim_def Let_def split: option.splits if_splits)

text \<open>
  C8, as stated: after a successful \<open>trim(x)\<close> no \<open>trim(y)\<close> with \<open>y < x\<close>
  succeeds. The call clamps its target with \<open>slot_max\<close> instead of rejecting it:
  \<open>trim(10)\<close> followed by \<open>trim(5)\<close> returns OK twice, and the lower bound of the
  trim lock stays at 10.
\<close>

theorem C8_trim_counterexample:
  "(5 :: slot_offset_type) < 10 \<and>
   fst (trim ok_env 10 fresh_volume) = Inr () \<and>
   fst (trim ok_env 5 (snd (trim ok_env 10 fresh_volume))) = Inr () \<and>
   trim_lock (snd (trim ok_env 5 (snd (trim ok_env 10 fresh_volume)))) =
     Some \<lparr> lower_bound = 10, upper_bound = 0 \<rparr>"
  by (simp add: trim_def ok_env_def fresh_volume_def record_event_def slot_max_def slot_less_than_def Let_def)

text \<open>
  C8, amended. A successful \<open>trim(x)\<close> does not move the lower bound of the trim lock
  backwards in slot order, and neither does a successful call after it. A later
  \<open>trim(y)\<close> returns OK exactly when \<open>update_lock\<close> does; when it returns OK with
  \<open>y < x\<close> (offsets below \<open>2 ^ 63\<close>, where the slot order is the order of the
  numbers) it leaves the trim lock as it is, at or above \<open>x\<close>.
\<close>

theorem C8_trim_monotone:
  assumes "trim env x v = (Inr (), v1)" and "trim env y v1 = (res, v2)"
  shows "\<exists>l l1. trim_lock v = Some l \<and> trim_lock v1 = Some l1 \<and>
         \<not> slot_less_than (lower_bound l1) (lower_bound l) \<and>
         (res = Inr () \<longleftrightarrow>
            update_lock env l1 (l1\<lparr>lower_bound := slot_max (lower_bound l1) y\<rparr>) = OkStatus) \<and>
         (res = Inr () \<longrightarrow>
            (\<exists>l2. trim_lock v2 = Some l2 \<and>
               \<not> slot_less_than (lower_bound l2) (lower_bound l1))) \<and>
         (y < x \<and> unat x < 2 ^ 63 \<and> unat (lower_bound l) < 2 ^ 63 \<longrightarrow>
            x \<le> lower_bound l1 \<and> (res = Inr () \<longrightarrow> trim_lock v2 = trim_lock v1))"
proof -
  from trim_ok [OF assms(1)] obtain l where
    l: "trim_lock v = Some l"
       "trim_lock v1 = Some (l\<lparr>lower_bound := slot_max (lower_bound l) x\<rparr>)"
    by blast
  define l1 where "l1 = l\<lparr>lower_bound := slot_max (lower_bound l) x\<rparr>"
  have l1: "trim_lock v1 = Some l1" "lower_bound l1 = slot_max (lower_bound l) x"
    using l by (simp_all add: l1_def)
  let ?t = "l1\<lparr>lower_bound := slot_max (lower_bound l1) y\<rparr>"
  have a: "\<not> slot_less_than (lower_bound l1) (lower_bound l)"
    by (simp add: l1 slot_max_not_less)
  have c: "res = Inr () \<longleftrightarrow> update_lock env l1 ?t = OkStatus"
    using assms(2) l1(1) by (auto simp: trim_def Let_def split: if_splits)
  have l2: "trim_lock v2 = Some ?t" if "res = Inr ()"
    using assms(2) l1(1) that by (auto simp: trim_def Let_def split: if_splits)
  have b: "\<exists>l2. trim_lock v2 = Some l2 \<and> \<not> slot_less_than (lower_bound l2) (lower_bound l1)"
    if "res = Inr ()"
    using l2 [OF that] by (simp add: slot_max_not_less)
  have d: "x \<le> lower_bound l1 \<and> (res = Inr () \<longrightarrow> trim_lock v2 = trim_lock v1)"
    if h: "y < x" "unat x < 2 ^ 63" "unat (lower_bound l) < 2 ^ 63"
  proof -
    let ?l = "lower_bound l"
    have m: "slot_max ?l x = max ?l x"
      using h by (auto simp add: slot_max_def slot_less_than_plain max_def)
    have ub: "unat (max ?l x) < 2 ^ 63" using h by (simp add: max_def)
    have yb: "unat y < 2 ^ 63" using h by (simp add: word_less_nat_alt)
    have l1m: "lower_bound l1 = max ?l x" using l1 m by simp
    have "\<not> slot_less_than (max ?l x) y"
      using h ub yb by (auto simp add: slot_less_than_plain max_def)
    then have "\<not> slot_less_than (lower_bound l1) y" using l1m by simp
    then have "slot_max (lower_bound l1) y = lower_bound l1"
      unfolding slot_max_def by simp
    then have t: "?t = l1" by simp
    have xl: "x \<le> lower_bound l1" unfolding l1m by simp
    show ?thesis using l2 l1(1) t xl by simp
  qed
  show ?thesis
    using l(1) l1(1) a c b d by (intro exI [where x = l] exI [where x = l1]) blast
qed

theorem C8_trim_monotone_witness:
  "trim ok_env 10 fresh_volume = (Inr (), trimmed_to_10) \<and>
   (5 :: slot_offset_type) < 10 \<and>
   fst (trim ok_env 5 trimmed_to_10) = Inr () \<and>
   trim_lock (snd (trim ok_env 5 trimmed_to_10)) = trim_lock trimmed_to_10 \<and>
   (\<exists>l1. trim_lock trimmed_to_10 = Some l1 \<and> (10 :: slot_offset_type) \<le> lower_bound l1)"
proof -
  have h1: "trim ok_env 10 fresh_volume = (Inr (), trimmed_to_10)"
    by (simp add: trimmed_to_10_def trim_def ok_env_def fresh_volume_def Let_def)
  have h2: "trim ok_env 5 trimmed_to_10 =
              (fst (trim ok_env 5 trimmed_to_10), snd (trim ok_env 5 trimmed_to_10))"
    by simp
  have fl: "trim_lock fresh_volume = Some \<lparr> lower_bound = 0, upper_bound = 0 \<rparr>"
    by (simp add: fresh_volume_def)
  have side: "(5 :: slot_offset_type) < 10" "unat (10 :: slot_offset_type) < 2 ^ 63" by simp_all
  have ok: "fst (trim ok_env 5 trimmed_to_10) = Inr ()"
    by (simp add: trimmed_to_10_def trim_def ok_env_def fresh_volume_def record_event_def Let_def)
  from C8_trim_monotone [OF h1 h2] obtain l l1 where
    h: "trim_lock fresh_volume = Some l" "trim_lock trimmed_to_10 = Some l1"
       "5 < (10 :: slot_offset_type) \<and> unat (10 :: slot_offset_type) < 2 ^ 63 \<and>
        unat (lower_bound l) < 2 ^ 63 \<longrightarrow>
          10 \<le> lower_bound l1 \<and>
          (fst (trim ok_env 5 trimmed_to_10) = Inr () \<longrightarrow>
             trim_lock (snd (trim ok_env 5 trimmed_to_10)) = trim_lock trimmed_to_10)"
    by blast
  have "unat (lower_bound l) < 2 ^ 63" using h(1) fl by auto
  then show ?thesis using h h1 side ok by auto
qed

section \<open>Facts about the recycler\<close>

lemma log_event_simps [simp]:
  "recycler_trace (log_event e r) = recycler_trace r @ [e]"
  "options (log_event e r) = options r"
  "wal_slot_writer (log_event e r) = wal_slot_writer r"
  "recycle_task_grant (log_event e r) = recycle_task_grant r"
  "insert_grant_pool (log_event e r) = insert_grant_pool r"
  "pending (log_event e r) = pending r"
  "latest_info_refresh_slot (log_event e r) = latest_info_refresh_slot r"
  "prepared_batch (log_event e r) = prepared_batch r"
  "latest_batch_upper_bound (log_event e r) = latest_batch_upper_bound r"
  "stop_requested (log_event e r) = stop_requested r"
  "wal_durable_upper_bound (log_event e r) = wal_durable_upper_bound r"
  by (simp_all add: log_event_def)

text \<open>What a run of \<open>append_items\<close> leaves unchanged, and what it writes.\<close>

lemma append_items_frame:
  assumes "append_items env items last_slot g r = (res, g', r')"
  shows "options r' = options r \<and> recycle_task_grant r' = recycle_task_grant r \<and>
         insert_grant_pool r' = insert_grant_pool r \<and> pending r' = pending r \<and>
         latest_info_refresh_slot r' = latest_info_refresh_slot r \<and>
         prepared_batch r' = prepared_batch r \<and>
         latest_batch_upper_bound r' = latest_batch_upper_bound r \<and>
         stop_requested r' = stop_requested r \<and>
         wal_durable_upper_bound r' = wal_durable_upper_bound r \<and>
         sw_halted (wal_slot_writer r') = sw_halted (wal_slot_writer r) \<and>
         sw_pool (wal_slot_writer r') = sw_pool (wal_slot_writer r) \<and>
         sw_pool_size (wal_slot_writer r') = sw_pool_size (wal_slot_writer r) \<and>
         sw_trim_pos (wal_slot_writer r') = sw_trim_pos (wal_slot_writer r) \<and>
         issuer g' = issuer g \<and> grant_size g' \<le> grant_size g"
  using assms
proof (induction items arbitrary: last_slot g r)
  case Nil
  then show ?case by simp
next
  case (Cons item items)
  show ?case
  proof (cases "slot_writer_append (packed_sizeof env (PackedPageToRecycle item)) g (wal_slot_writer r)")
    case (Inl f)
    then show ?thesis using Cons.prems by simp
  next
    case (Inr x)
    obtain sr g1 w1 where x: "x = (sr, g1, w1)" by (cases x) auto
    from slot_writer_append_Inr [OF Inr [unfolded x]] Cons.IH Cons.prems Inr x
    show ?thesis by fastforce
  qed
qed

lemma append_items_offsets:
  assumes "append_items env items last_slot g r = (res, g', r')"
    and "sw_slot_offset (wal_slot_writer r) = o0 + of_nat a"
    and "a + grant_size g < 2 ^ 63"
    and "last_slot = o0 + of_nat b" and "b \<le> a"
  shows "\<exists>new. recycler_trace r' = recycler_trace r @ new \<and>
           sw_slot_offset (wal_slot_writer r') = o0 + of_nat (a + (grant_size g - grant_size g')) \<and>
           (\<forall>sr p. R_append sr p \<in> set new \<longrightarrow>
              (\<exists>j. a \<le> j \<and> j \<le> a + (grant_size g - grant_size g') \<and>
                   upper_bound sr = o0 + of_nat j)) \<and>
           (\<forall>e \<in> set new. \<exists>sr it. e = R_append sr (PackedPageToRecycle it)) \<and>
           (new = [] \<longrightarrow> grant_size g' = grant_size g) \<and>
           (new \<noteq> [] \<longrightarrow> (\<exists>sr p. last new = R_append sr p \<and>
              upper_bound sr = o0 + of_nat (a + (grant_size g - grant_size g')))) \<and>
           (\<forall>x. res = Inr x \<longrightarrow>
              length new = length items \<and>
              x = (if items = [] then last_slot
                   else o0 + of_nat (a + (grant_size g - grant_size g'))))"
  using assms
proof (induction items arbitrary: last_slot g r a b)
  case Nil
  then show ?case by auto
next
  case (Cons item items)
  let ?n = "packed_sizeof env (PackedPageToRecycle item)"
  show ?case
  proof (cases "slot_writer_append ?n g (wal_slot_writer r)")
    case (Inl f)
    then show ?thesis using Cons.prems by auto
  next
    case (Inr x)
    obtain sr g1 w1 where x: "x = (sr, g1, w1)" by (cases x) auto
    from slot_writer_append_Inr [OF Inr [unfolded x]]
    have h: "?n \<le> grant_size g"
      "sr = \<lparr> lower_bound = sw_slot_offset (wal_slot_writer r),
              upper_bound = sw_slot_offset (wal_slot_writer r) + of_nat ?n \<rparr>"
      "g1 = g\<lparr>grant_size := grant_size g - ?n\<rparr>"
      "w1 = (wal_slot_writer r)\<lparr>sw_slot_offset := sw_slot_offset (wal_slot_writer r) + of_nat ?n\<rparr>"
      by auto
    let ?r1 = "log_event (R_append sr (PackedPageToRecycle item)) (r\<lparr>wal_slot_writer := w1\<rparr>)"
    have run: "append_items env items (slot_max last_slot (upper_bound sr)) g1 ?r1 = (res, g', r')"
      using Cons.prems(1) Inr x by simp
    have up: "upper_bound sr = o0 + of_nat (a + ?n)"
      using h Cons.prems(2) by simp
    have o1: "sw_slot_offset (wal_slot_writer ?r1) = o0 + of_nat (a + ?n)"
      using h Cons.prems(2) by simp
    have b1: "(a + ?n) + grant_size g1 < 2 ^ 63"
      using h Cons.prems(3) by simp
    have an: "a + ?n < 2 ^ 63" using b1 by simp
    have l1: "slot_max last_slot (upper_bound sr) = o0 + of_nat (a + ?n)"
      using slot_max_offset [of b "a + ?n" o0] Cons.prems(4,5) an up by simp
    from Cons.IH [OF run o1 b1 l1 le_refl] obtain new where
      n: "recycler_trace r' = recycler_trace ?r1 @ new"
         "sw_slot_offset (wal_slot_writer r') = o0 + of_nat (a + ?n + (grant_size g1 - grant_size g'))"
         "\<forall>sr p. R_append sr p \<in> set new \<longrightarrow>
              (\<exists>j. a + ?n \<le> j \<and> j \<le> a + ?n + (grant_size g1 - grant_size g') \<and>
                   upper_bound sr = o0 + of_nat j)"
         "\<forall>e \<in> set new. \<exists>sr it. e = R_append sr (PackedPageToRecycle it)"
         "new = [] \<longrightarrow> grant_size g' = grant_size g1"
         "new \<noteq> [] \<longrightarrow> (\<exists>sr p. last new = R_append sr p \<and>
              upper_bound sr = o0 + of_nat (a + ?n + (grant_size g1 - grant_size g')))"
         "\<forall>x. res = Inr x \<longrightarrow>
              length new = length items \<and>
              x = (if items = [] then slot_max last_slot (upper_bound sr)
                   else o0 + of_nat (a + ?n + (grant_size g1 - grant_size g')))"
      by blast
    have le: "grant_size g' \<le> grant_size g1"
      using append_items_frame [OF run] by simp
    have sum: "a + ?n + (grant_size g1 - grant_size g') = a + (grant_size g - grant_size g')"
      using h le by simp
    show ?thesis
    proof (intro exI [where x = "R_append sr (PackedPageToRecycle item) # new"] conjI)
      show "recycler_trace r' = recycler_trace r @ R_append sr (PackedPageToRecycle item) # new"
        using n(1) by simp
      show "sw_slot_offset (wal_slot_writer r') = o0 + of_nat (a + (grant_size g - grant_size g'))"
        using n(2) sum by simp
      show "\<forall>sr' p. R_append sr' p \<in> set (R_append sr (PackedPageToRecycle item) # new) \<longrightarrow>
              (\<exists>j. a \<le> j \<and> j \<le> a + (grant_size g - grant_size g') \<and>
                   upper_bound sr' = o0 + of_nat j)"
      proof (intro allI impI)
        fix sr' p
        assume "R_append sr' p \<in> set (R_append sr (PackedPageToRecycle item) # new)"
        then consider "sr' = sr" | "R_append sr' p \<in> set new" by auto
        then show "\<exists>j. a \<le> j \<and> j \<le> a + (grant_size g - grant_size g') \<and>
                   upper_bound sr' = o0 + of_nat j"
        proof cases
          case 1
          then show ?thesis using up sum by (intro exI [where x = "a + ?n"]) auto
        next
          case 2
          then obtain j where "a + ?n \<le> j" "j \<le> a + ?n + (grant_size g1 - grant_size g')"
            "upper_bound sr' = o0 + of_nat j" using n(3) by blast
          then show ?thesis using sum by (intro exI [where x = j]) auto
        qed
      qed
      show "\<forall>e \<in> set (R_append sr (PackedPageToRecycle item) # new).
              \<exists>sr it. e = R_append sr (PackedPageToRecycle it)"
        using n(4) by auto
      show "R_append sr (PackedPageToRecycle item) # new = [] \<longrightarrow> grant_size g' = grant_size g"
        by simp
      show "R_append sr (PackedPageToRecycle item) # new \<noteq> [] \<longrightarrow>
              (\<exists>sr' p. last (R_append sr (PackedPageToRecycle item) # new) = R_append sr' p \<and>
                 upper_bound sr' = o0 + of_nat (a + (grant_size g - grant_size g')))"
      proof (cases "new = []")
        case True
        then show ?thesis using n(5) up h by auto
      next
        case False
        then show ?thesis using n(6) sum by auto
      qed
      show "\<forall>x. res = Inr x \<longrightarrow>
              length (R_append sr (PackedPageToRecycle item) # new) = length (item # items) \<and>
              x = (if item # items = [] then last_slot
                   else o0 + of_nat (a + (grant_size g - grant_size g')))"
      proof (intro allI impI)
        fix x assume r: "res = Inr x"
        then have l: "length new = length items" using n(7) by simp
        have "x = o0 + of_nat (a + (grant_size g - grant_size g'))"
        proof (cases "items = []")
          case True
          then have "new = []" using l by simp
          then have "grant_size g' = grant_size g1" using n(5) by simp
          then show ?thesis using n(7) r True l1 h by simp
        next
          case False
          then show ?thesis using n(7) r sum by simp
        qed
        then show "length (R_append sr (PackedPageToRecycle item) # new) = length (item # items) \<and>
              x = (if item # items = [] then last_slot
                   else o0 + of_nat (a + (grant_size g - grant_size g')))"
          using l by simp
      qed
    qed
  qed
qed

lemma inserts_between_Nil [simp]: "inserts_between base a a []"
  by (simp add: inserts_between_def)

lemma inserts_between_append:
  assumes "inserts_between base a a1 n1" and "inserts_between base a1 a2 n2"
  shows "inserts_between base a a2 (n1 @ n2)"
proof -
  have le: "a \<le> a1" "a1 \<le> a2" using assms by (simp_all add: inserts_between_def)
  have u: "\<forall>sr p. R_append sr p \<in> set (n1 @ n2) \<longrightarrow>
         (\<exists>j. a \<le> j \<and> j \<le> a2 \<and> upper_bound sr = base + of_nat j)"
  proof (intro allI impI)
    fix sr p assume "R_append sr p \<in> set (n1 @ n2)"
    then consider "R_append sr p \<in> set n1" | "R_append sr p \<in> set n2" by auto
    then show "\<exists>j. a \<le> j \<and> j \<le> a2 \<and> upper_bound sr = base + of_nat j"
    proof cases
      case 1
      then obtain j where "a \<le> j" "j \<le> a1" "upper_bound sr = base + of_nat j"
        using assms(1) unfolding inserts_between_def by blast
      then show ?thesis using le by (intro exI [where x = j]) auto
    next
      case 2
      then obtain j where "a1 \<le> j" "j \<le> a2" "upper_bound sr = base + of_nat j"
        using assms(2) unfolding inserts_between_def by blast
      then show ?thesis using le by (intro exI [where x = j]) auto
    qed
  qed
  have k: "\<forall>e \<in> set (n1 @ n2). \<exists>sr it. e = R_append sr (PackedPageToRecycle it)"
    using assms by (auto simp: inserts_between_def)
  have e: "n1 @ n2 = [] \<longrightarrow> a2 = a"
    using assms by (auto simp: inserts_between_def)
  have l: "n1 @ n2 \<noteq> [] \<longrightarrow>
        (\<exists>sr p. last (n1 @ n2) = R_append sr p \<and> upper_bound sr = base + of_nat a2)"
  proof (cases "n2 = []")
    case True
    then have "a2 = a1" using assms(2) by (simp add: inserts_between_def)
    then show ?thesis using True assms(1) by (simp add: inserts_between_def)
  next
    case False
    then show ?thesis using assms(2) by (simp add: inserts_between_def)
  qed
  show ?thesis unfolding inserts_between_def using le u k e l by auto
qed

lemma append_items_between:
  assumes "append_items env items last_slot g r = (res, g', r')"
    and "sw_slot_offset (wal_slot_writer r) = base + of_nat a"
    and "a + grant_size g < 2 ^ 63"
    and "last_slot = base + of_nat b" and "b \<le> a"
  shows "\<exists>new a'. recycler_trace r' = recycler_trace r @ new \<and>
           a' + grant_size g' = a + grant_size g \<and>
           sw_slot_offset (wal_slot_writer r') = base + of_nat a' \<and>
           inserts_between base a a' new \<and>
           (\<forall>x. res = Inr x \<longrightarrow>
              length new = length items \<and> x = (if items = [] then last_slot else base + of_nat a'))"
proof -
  from append_items_offsets [OF assms] obtain new where
    n: "recycler_trace r' = recycler_trace r @ new"
       "sw_slot_offset (wal_slot_writer r') = base + of_nat (a + (grant_size g - grant_size g'))"
       "\<forall>sr p. R_append sr p \<in> set new \<longrightarrow>
              (\<exists>j. a \<le> j \<and> j \<le> a + (grant_size g - grant_size g') \<and>
                   upper_bound sr = base + of_nat j)"
       "\<forall>e \<in> set new. \<exists>sr it. e = R_append sr (PackedPageToRecycle it)"
       "new = [] \<longrightarrow> grant_size g' = grant_size g"
       "new \<noteq> [] \<longrightarrow> (\<exists>sr p. last new = R_append sr p \<and>
              upper_bound sr = base + of_nat (a + (grant_size g - grant_size g')))"
       "\<forall>x. res = Inr x \<longrightarrow>
              length new = length items \<and>
              x = (if items = [] then last_slot
                   else base + of_nat (a + (grant_size g - grant_size g')))"
    by blast
  have le: "grant_size g' \<le> grant_size g" using append_items_frame [OF assms(1)] by simp
  let ?a' = "a + (grant_size g - grant_size g')"
  have "inserts_between base a ?a' new"
    unfolding inserts_between_def using n(3,4,5,6) by auto
  then show ?thesis
    using n(1,2,7) le by (intro exI [where x = new] exI [where x = ?a']) auto
qed

lemma insert_to_log_frame:
  assumes "insert_to_log env g pid d r = (res, g', r')"
  shows "options r' = options r \<and> recycle_task_grant r' = recycle_task_grant r \<and>
         insert_grant_pool r' = insert_grant_pool r \<and>
         pending r' = snd (RecyclerState_insert
            \<lparr> page_id = pid, slot_offset = sw_slot_offset (wal_slot_writer r), depth = d \<rparr>
            (pending r)) \<and>
         latest_info_refresh_slot r' = latest_info_refresh_slot r \<and>
         prepared_batch r' = prepared_batch r \<and>
         latest_batch_upper_bound r' = latest_batch_upper_bound r \<and>
         stop_requested r' = stop_requested r \<and>
         wal_durable_upper_bound r' = wal_durable_upper_bound r \<and>
         sw_halted (wal_slot_writer r') = sw_halted (wal_slot_writer r) \<and>
         sw_pool (wal_slot_writer r') = sw_pool (wal_slot_writer r) \<and>
         sw_pool_size (wal_slot_writer r') = sw_pool_size (wal_slot_writer r) \<and>
         sw_trim_pos (wal_slot_writer r') = sw_trim_pos (wal_slot_writer r) \<and>
         issuer g' = issuer g \<and> grant_size g' \<le> grant_size g"
proof -
  let ?item = "\<lparr> page_id = pid, slot_offset = sw_slot_offset (wal_slot_writer r), depth = d \<rparr>"
  obtain to_append pending1 where ins: "RecyclerState_insert ?item (pending r) = (to_append, pending1)"
    by (cases "RecyclerState_insert ?item (pending r)") auto
  show ?thesis
  proof (cases "to_append = []")
    case True
    then show ?thesis using assms ins by (auto simp: insert_to_log_def Let_def)
  next
    case False
    obtain res2 g2 r2 where
      ai: "append_items env to_append (sw_slot_offset (wal_slot_writer r)) g (r\<lparr>pending := pending1\<rparr>)
             = (res2, g2, r2)"
      by (cases "append_items env to_append (sw_slot_offset (wal_slot_writer r)) g (r\<lparr>pending := pending1\<rparr>)") auto
    have "g' = g2" "r' = r2"
      using assms ins False ai by (auto simp: insert_to_log_def Let_def split: sum.splits if_splits)
    then show ?thesis using append_items_frame [OF ai] ins by simp
  qed
qed

lemma insert_to_log_between:
  assumes "insert_to_log env g pid d r = (res, g', r')"
    and "sw_slot_offset (wal_slot_writer r) = base + of_nat a"
    and "a + grant_size g < 2 ^ 63"
  shows "\<exists>new a'. recycler_trace r' = recycler_trace r @ new \<and>
           a' + grant_size g' = a + grant_size g \<and>
           sw_slot_offset (wal_slot_writer r') = base + of_nat a' \<and>
           inserts_between base a a' new \<and>
           (\<forall>s. res = Inr s \<longrightarrow> s = base + of_nat a')"
proof -
  let ?item = "\<lparr> page_id = pid, slot_offset = sw_slot_offset (wal_slot_writer r), depth = d \<rparr>"
  obtain to_append pending1 where ins: "RecyclerState_insert ?item (pending r) = (to_append, pending1)"
    by (cases "RecyclerState_insert ?item (pending r)") auto
  show ?thesis
  proof (cases "to_append = []")
    case True
    then have "res = Inr (sw_slot_offset (wal_slot_writer r))" "g' = g" "r' = r\<lparr>pending := pending1\<rparr>"
      using assms(1) ins by (auto simp: insert_to_log_def Let_def)
    then show ?thesis using assms(2)
      by (intro exI [where x = "[]"] exI [where x = a]) auto
  next
    case False
    let ?r1 = "r\<lparr>pending := pending1\<rparr>"
    obtain res2 g2 r2 where
      ai: "append_items env to_append (sw_slot_offset (wal_slot_writer r)) g ?r1 = (res2, g2, r2)"
      by (cases "append_items env to_append (sw_slot_offset (wal_slot_writer r)) g ?r1") auto
    have eq: "g' = g2" "r' = r2" "\<forall>s. res = Inr s \<longrightarrow> res2 = Inr s"
      using assms(1) ins False ai by (auto simp: insert_to_log_def Let_def split: sum.splits if_splits)
    have o: "sw_slot_offset (wal_slot_writer ?r1) = base + of_nat a" using assms(2) by simp
    from append_items_between [OF ai o assms(3) assms(2) le_refl] obtain new a' where
      n: "recycler_trace r2 = recycler_trace ?r1 @ new"
         "a' + grant_size g2 = a + grant_size g"
         "sw_slot_offset (wal_slot_writer r2) = base + of_nat a'"
         "inserts_between base a a' new"
         "\<forall>x. res2 = Inr x \<longrightarrow>
              length new = length to_append \<and>
              x = (if to_append = [] then sw_slot_offset (wal_slot_writer r) else base + of_nat a')"
      by blast
    show ?thesis
      using n eq False by (intro exI [where x = new] exI [where x = a']) auto
  qed
qed


lemma clamp_min_slot_between:
  assumes "sp = None \<or> (\<exists>b\<le>a. sp = Some (base + of_nat b))" and "a \<le> a1" and "a1 < 2 ^ 63"
  shows "clamp_min_slot sp (base + of_nat a1) = Some (base + of_nat a1)"
proof (cases sp)
  case None
  then show ?thesis by (simp add: clamp_min_slot_def slot_max_def slot_less_than_irrefl)
next
  case (Some v)
  then obtain b where "b \<le> a" "v = base + of_nat b" using assms(1) by auto
  then show ?thesis
    using Some slot_max_offset [of b a1 base] assms(2,3) by (simp add: clamp_min_slot_def)
qed

lemma recycle_pages_with_grant_between:
  assumes "recycle_pages_with_grant env pids d sp g r = (res, g', r')"
    and "sw_slot_offset (wal_slot_writer r) = base + of_nat a"
    and "a + grant_size g < 2 ^ 63"
    and "sp = None \<or> (\<exists>b\<le>a. sp = Some (base + of_nat b))"
  shows "\<exists>new a'. recycler_trace r' = recycler_trace r @ new \<and>
           a' + grant_size g' = a + grant_size g \<and>
           sw_slot_offset (wal_slot_writer r') = base + of_nat a' \<and>
           inserts_between base a a' new \<and>
           (\<forall>sp'. res = Inr sp' \<longrightarrow> sp' = (if pids = [] then sp else Some (base + of_nat a')))"
  using assms
proof (induction pids arbitrary: sp g r a)
  case Nil
  then show ?case by (intro exI [where x = "[]"] exI [where x = a]) auto
next
  case (Cons pid pids)
  obtain res1 g1 r1 where il: "insert_to_log env g pid d r = (res1, g1, r1)"
    by (cases "insert_to_log env g pid d r") auto
  from insert_to_log_between [OF il Cons.prems(2,3)] obtain new1 a1 where
    n1: "recycler_trace r1 = recycler_trace r @ new1"
        "a1 + grant_size g1 = a + grant_size g"
        "sw_slot_offset (wal_slot_writer r1) = base + of_nat a1"
        "inserts_between base a a1 new1"
        "\<forall>s. res1 = Inr s \<longrightarrow> s = base + of_nat a1"
    by blast
  show ?case
  proof (cases res1)
    case (Inl f)
    then have "res = Inl f" "g' = g1" "r' = r1" using Cons.prems(1) il by auto
    then show ?thesis using n1 by (intro exI [where x = new1] exI [where x = a1]) auto
  next
    case (Inr s)
    then have s: "s = base + of_nat a1" using n1(5) by simp
    have le: "a \<le> a1" using n1(4) by (simp add: inserts_between_def)
    have b1: "a1 + grant_size g1 < 2 ^ 63" using n1(2) Cons.prems(3) by simp
    then have a1b: "a1 < 2 ^ 63" by simp
    have cl: "clamp_min_slot sp s = Some (base + of_nat a1)"
      using clamp_min_slot_between [OF Cons.prems(4) le a1b] s by simp
    have run: "recycle_pages_with_grant env pids d (Some (base + of_nat a1)) g1 r1 = (res, g', r')"
      using Cons.prems(1) il Inr cl by simp
    have sp1: "Some (base + of_nat a1) = None \<or> (\<exists>b\<le>a1. Some (base + of_nat a1) = Some (base + of_nat b))"
      by auto
    from Cons.IH [OF run n1(3) b1 sp1] obtain new2 a2 where
      n2: "recycler_trace r' = recycler_trace r1 @ new2"
          "a2 + grant_size g' = a1 + grant_size g1"
          "sw_slot_offset (wal_slot_writer r') = base + of_nat a2"
          "inserts_between base a1 a2 new2"
          "\<forall>sp'. res = Inr sp' \<longrightarrow> sp' = (if pids = [] then Some (base + of_nat a1) else Some (base + of_nat a2))"
      by blast
    have fin: "\<forall>sp'. res = Inr sp' \<longrightarrow> sp' = Some (base + of_nat a2)"
    proof (cases "pids = []")
      case True
      then have "g' = g1" using run by simp
      then have "a2 = a1" using n2(2) by simp
      then show ?thesis using n2(5) True by simp
    next
      case False
      then show ?thesis using n2(5) by simp
    qed
    show ?thesis
      using n1 n2 fin inserts_between_append [OF n1(4) n2(4)]
      by (intro exI [where x = "new1 @ new2"] exI [where x = a2]) auto
  qed
qed

lemma grant_spend_wait_Inr:
  "grant_spend_wait n g = Inr (local_grant, rest) \<Longrightarrow>
     n \<le> grant_size g \<and> grant_size local_grant = n \<and> grant_size rest = grant_size g - n \<and>
     issuer local_grant = issuer g \<and> issuer rest = issuer g"
  by (auto simp: grant_spend_wait_def split: if_splits)

lemma recycle_pages_from_pool_between:
  assumes "recycle_pages_from_pool env pids d sp r = (res, r')"
    and "sw_slot_offset (wal_slot_writer r) = base + of_nat a"
    and "a + grant_size (insert_grant_pool r) < 2 ^ 63"
    and "sp = None \<or> (\<exists>b\<le>a. sp = Some (base + of_nat b))"
  shows "\<exists>new a'. recycler_trace r' = recycler_trace r @ new \<and>
           a' + grant_size (insert_grant_pool r') \<le> a + grant_size (insert_grant_pool r) \<and>
           sw_slot_offset (wal_slot_writer r') = base + of_nat a' \<and>
           inserts_between base a a' new \<and>
           (\<forall>sp'. res = Inr sp' \<longrightarrow> sp' = (if pids = [] then sp else Some (base + of_nat a')))"
  using assms
proof (induction pids arbitrary: sp r a)
  case Nil
  then show ?case by (intro exI [where x = "[]"] exI [where x = a]) auto
next
  case (Cons pid pids)
  let ?n = "insert_grant_size (options r)"
  show ?case
  proof (cases "grant_spend_wait ?n (insert_grant_pool r)")
    case (Inl f)
    then have "res = Inl f" "r' = r" using Cons.prems(1) by auto
    then show ?thesis using Cons.prems(2) by (intro exI [where x = "[]"] exI [where x = a]) auto
  next
    case (Inr x)
    obtain local_grant pool1 where x: "x = (local_grant, pool1)" by (cases x) auto
    from grant_spend_wait_Inr [OF Inr [unfolded x]]
    have sp: "?n \<le> grant_size (insert_grant_pool r)" "grant_size local_grant = ?n"
      "grant_size pool1 = grant_size (insert_grant_pool r) - ?n"
      by auto
    let ?r0 = "r\<lparr>insert_grant_pool := pool1\<rparr>"
    obtain res1 g1 r1 where il: "insert_to_log env local_grant pid d ?r0 = (res1, g1, r1)"
      by (cases "insert_to_log env local_grant pid d ?r0") auto
    have o0: "sw_slot_offset (wal_slot_writer ?r0) = base + of_nat a" using Cons.prems(2) by simp
    have b0: "a + grant_size local_grant < 2 ^ 63" using sp Cons.prems(3) by simp
    from insert_to_log_between [OF il o0 b0] obtain new1 a1 where
      n1: "recycler_trace r1 = recycler_trace ?r0 @ new1"
          "a1 + grant_size g1 = a + grant_size local_grant"
          "sw_slot_offset (wal_slot_writer r1) = base + of_nat a1"
          "inserts_between base a a1 new1"
          "\<forall>s. res1 = Inr s \<longrightarrow> s = base + of_nat a1"
      by blast
    have p1: "insert_grant_pool r1 = pool1" using insert_to_log_frame [OF il] by simp
    let ?r1 = "r1\<lparr>wal_slot_writer := release_grant g1 (wal_slot_writer r1)\<rparr>"
    have r1f: "recycler_trace ?r1 = recycler_trace r @ new1"
      "sw_slot_offset (wal_slot_writer ?r1) = base + of_nat a1"
      "insert_grant_pool ?r1 = pool1"
      using n1 p1 by (simp_all add: release_grant_def)
    have le: "a \<le> a1" using n1(4) by (simp add: inserts_between_def)
    have bound: "a1 + grant_size pool1 \<le> a + grant_size (insert_grant_pool r)"
      using n1(2) sp by simp
    show ?thesis
    proof (cases res1)
      case (Inl f)
      then have "res = Inl f" "r' = ?r1" using Cons.prems(1) Inr x il by auto
      then show ?thesis using r1f n1 bound
        by (intro exI [where x = new1] exI [where x = a1]) auto
    next
      case inr: (Inr s)
      then have s: "s = base + of_nat a1" using n1(5) by simp
      have b1: "a1 + grant_size (insert_grant_pool ?r1) < 2 ^ 63"
        using bound r1f Cons.prems(3) by simp
      then have a1b: "a1 < 2 ^ 63" by simp
      have cl: "clamp_min_slot sp s = Some (base + of_nat a1)"
        using clamp_min_slot_between [OF Cons.prems(4) le a1b] s by simp
      have run: "recycle_pages_from_pool env pids d (Some (base + of_nat a1)) ?r1 = (res, r')"
        using Cons.prems(1) Inr x il inr cl by simp
      have sp1: "Some (base + of_nat a1) = None \<or> (\<exists>b\<le>a1. Some (base + of_nat a1) = Some (base + of_nat b))"
        by auto
      from Cons.IH [OF run r1f(2) b1 sp1] obtain new2 a2 where
        n2: "recycler_trace r' = recycler_trace ?r1 @ new2"
            "a2 + grant_size (insert_grant_pool r') \<le> a1 + grant_size (insert_grant_pool ?r1)"
            "sw_slot_offset (wal_slot_writer r') = base + of_nat a2"
            "inserts_between base a1 a2 new2"
            "\<forall>sp'. res = Inr sp' \<longrightarrow> sp' = (if pids = [] then Some (base + of_nat a1) else Some (base + of_nat a2))"
        by blast
      have fin: "\<forall>sp'. res = Inr sp' \<longrightarrow> sp' = Some (base + of_nat a2)"
      proof (cases "pids = []")
        case True
        then have "r' = ?r1" using run by simp
        then have "base + of_nat a2 = base + of_nat a1" using n2(3) r1f(2) by simp
        then show ?thesis using n2(5) True by simp
      next
        case False
        then show ?thesis using n2(5) by simp
      qed
      show ?thesis
        using r1f n2 fin bound inserts_between_append [OF n1(4) n2(4)]
        by (intro exI [where x = "new1 @ new2"] exI [where x = a2]) auto
    qed
  qed
qed

lemmas recycler_eval_defs =
  recycle_pages_def insert_to_log_def RecyclerState_insert_def slot_writer_append_def
  grant_spend_wait_def release_grant_def clamp_min_slot_def slot_max_def slot_less_than_def
  log_event_def rec_env_def idle_recycler_def Let_def

lemma recycled_once_eval:
  "recycle_pages rec_env [1] None 0 idle_recycler =
     (Inr 124, None,
      idle_recycler\<lparr>
        wal_slot_writer := (wal_slot_writer idle_recycler)\<lparr>sw_slot_offset := 124\<rparr>,
        insert_grant_pool := \<lparr> issuer = 0, grant_size = 216 \<rparr>,
        pending := [\<lparr> page_id = 1, slot_offset = 100, depth = 0 \<rparr>],
        recycler_trace :=
          [R_append \<lparr> lower_bound = 100, upper_bound = 124 \<rparr>
             (PackedPageToRecycle \<lparr> page_id = 1, slot_offset = 100, depth = 0 \<rparr>)]\<rparr>)"
  by (simp add: recycler_eval_defs)

lemma recycled_once_eq:
  "recycled_once =
      idle_recycler\<lparr>
        wal_slot_writer := (wal_slot_writer idle_recycler)\<lparr>sw_slot_offset := 124\<rparr>,
        insert_grant_pool := \<lparr> issuer = 0, grant_size = 216 \<rparr>,
        pending := [\<lparr> page_id = 1, slot_offset = 100, depth = 0 \<rparr>],
        recycler_trace :=
          [R_append \<lparr> lower_bound = 100, upper_bound = 124 \<rparr>
             (PackedPageToRecycle \<lparr> page_id = 1, slot_offset = 100, depth = 0 \<rparr>)]\<rparr>"
  by (simp add: recycled_once_def recycled_once_eval)

lemma recycled_twice_eval:
  "recycle_pages rec_env [1] None 0 recycled_once =
     (Inr 124, None,
      recycled_once\<lparr>
        wal_slot_writer := (wal_slot_writer recycled_once)\<lparr>sw_pool_size := 1024\<rparr>,
        insert_grant_pool := \<lparr> issuer = 0, grant_size = 192 \<rparr>\<rparr>)"
  by (simp add: recycled_once_eq) (simp add: recycler_eval_defs)

text \<open>
  C5, as stated: with pages to recycle, \<open>recycle_pages\<close> returns the highest slot
  upper bound produced by its appends. A page that is already pending is not written
  again: recycling page 1 a second time appends no slot at all, and the call returns
  124, the current slot offset of the writer.
\<close>

theorem C5_no_append_counterexample:
  "fst (recycle_pages rec_env [1] None 0 recycled_once) = Inr 124 \<and>
   recycler_trace recycled_twice = recycler_trace recycled_once \<and>
   sw_slot_offset (wal_slot_writer recycled_once) = 124 \<and>
   appended_slots (drop (length (recycler_trace recycled_once)) (recycler_trace recycled_twice)) = []"
  by (simp add: recycled_twice_def recycled_twice_eval appended_slots_def)
     (simp add: recycled_once_eq idle_recycler_def)

lemma appended_slots_simps [simp]:
  "appended_slots [] = []"
  "appended_slots (xs @ ys) = appended_slots xs @ appended_slots ys"
  "appended_slots (R_append sr p # xs) = (sr, p) # appended_slots xs"
  "appended_slots (R_flush ub st # xs) = appended_slots xs"
  "appended_slots (R_delete_pages pages b # xs) = appended_slots xs"
  "appended_slots (R_delete_pages_returned b st # xs) = appended_slots xs"
  "appended_slots (R_trim tp # xs) = appended_slots xs"
  by (simp_all add: appended_slots_def)

lemma set_appended_slots: "set (appended_slots tr) = {(sr, p). R_append sr p \<in> set tr}"
  by (induction tr) (auto simp: appended_slots_def split: recycler_event.splits)

lemma appended_slots_inserts:
  assumes "inserts_between base a a' new"
  shows "(appended_slots new = [] \<longleftrightarrow> new = []) \<and>
         (new \<noteq> [] \<longrightarrow> upper_bound (fst (last (appended_slots new))) = base + of_nat a') \<and>
         (\<forall>sr \<in> set (map fst (appended_slots new)).
             \<exists>j. a \<le> j \<and> j \<le> a' \<and> upper_bound sr = base + of_nat j)"
proof (intro conjI)
  show "appended_slots new = [] \<longleftrightarrow> new = []"
  proof
    assume e: "appended_slots new = []"
    show "new = []"
    proof (rule ccontr)
      assume "new \<noteq> []"
      then obtain x where x: "x \<in> set new" by (cases new) auto
      then obtain sr it where "x = R_append sr (PackedPageToRecycle it)"
        using assms unfolding inserts_between_def by blast
      then have "(sr, PackedPageToRecycle it) \<in> set (appended_slots new)"
        using x by (simp add: set_appended_slots)
      then show False using e by simp
    qed
  qed simp
  show "new \<noteq> [] \<longrightarrow> upper_bound (fst (last (appended_slots new))) = base + of_nat a'"
  proof
    assume ne: "new \<noteq> []"
    then obtain sr p where l: "last new = R_append sr p" "upper_bound sr = base + of_nat a'"
      using assms unfolding inserts_between_def by blast
    have "new = butlast new @ [R_append sr p]" using ne l(1) by (metis append_butlast_last_id)
    then have "appended_slots new = appended_slots (butlast new) @ [(sr, p)]"
      by (metis appended_slots_simps(1,2,3))
    then show "upper_bound (fst (last (appended_slots new))) = base + of_nat a'"
      using l(2) by simp
  qed
  show "\<forall>sr \<in> set (map fst (appended_slots new)).
             \<exists>j. a \<le> j \<and> j \<le> a' \<and> upper_bound sr = base + of_nat j"
    using assms unfolding inserts_between_def by (auto simp: set_appended_slots)
qed

lemma not_slot_less_than_offset:
  assumes "j \<le> a'" "a' < 2 ^ 63"
  shows "\<not> slot_less_than (base + of_nat a') (base + of_nat j)"
proof (cases "j = a'")
  case True
  then show ?thesis by (simp add: slot_less_than_irrefl)
next
  case False
  then have "slot_less_than (base + of_nat j) (base + of_nat a')"
    using assms slot_less_than_offset [of j a' base] by simp
  then show ?thesis by (rule slot_less_than_asym)
qed

text \<open>
  C5, amended. With no pages \<open>recycle_pages\<close> returns the durable upper bound of the
  log device and touches neither the state nor a grant. With pages, a successful call
  returns the slot offset of the writer as the call leaves it: the upper bound of the
  last slot it appended, which no slot it appended exceeds in slot order, or, when every
  page was already pending and nothing was appended, the slot offset the writer had
  before. The grant the appends draw on holds fewer than \<open>2 ^ 63\<close> bytes, the window
  of the slot order.
\<close>

theorem C5_recycle_pages_result:
  assumes run: "recycle_pages env page_ids grant d r = (res, grant', r')"
    and window: "(case grant of None \<Rightarrow> grant_size (insert_grant_pool r)
                  | Some g \<Rightarrow> grant_size g) < 2 ^ 63"
  shows "(page_ids = [] \<longrightarrow> res = Inr (wal_durable_upper_bound r) \<and> grant' = grant \<and> r' = r) \<and>
         (page_ids \<noteq> [] \<longrightarrow>
            (\<exists>new. recycler_trace r' = recycler_trace r @ new \<and>
               (\<forall>s. res = Inr s \<longrightarrow>
                  s = sw_slot_offset (wal_slot_writer r') \<and>
                  (if appended_slots new = [] then s = sw_slot_offset (wal_slot_writer r)
                   else s = upper_bound (fst (last (appended_slots new)))) \<and>
                  (\<forall>sr \<in> set (map fst (appended_slots new)).
                      \<not> slot_less_than s (upper_bound sr)))))"
proof (rule conjI; rule impI)
  assume "page_ids = []"
  then show "res = Inr (wal_durable_upper_bound r) \<and> grant' = grant \<and> r' = r"
    using run by (auto simp add: recycle_pages_def)
next
  assume ne: "page_ids \<noteq> []"
  let ?base = "sw_slot_offset (wal_slot_writer r)"
  have o: "?base = ?base + of_nat 0" by simp
  have sp: "None = None \<or> (\<exists>b\<le>0. (None :: slot_offset_type option) = Some (?base + of_nat b))"
    by simp
  have "\<exists>new a'. recycler_trace r' = recycler_trace r @ new \<and> a' < 2 ^ 63 \<and>
          sw_slot_offset (wal_slot_writer r') = ?base + of_nat a' \<and>
          inserts_between ?base 0 a' new \<and>
          (\<forall>s. res = Inr s \<longrightarrow> s = ?base + of_nat a')"
  proof (cases grant)
    case None
    show ?thesis
    proof (cases "d = 0")
      case False
      then have "r' = r" "\<forall>s. res \<noteq> Inr s"
        using run ne None by (auto simp: recycle_pages_def)
      then show ?thesis by (intro exI [where x = "[]"] exI [where x = 0]) auto
    next
      case True
      obtain res1 r1 where lp: "recycle_pages_from_pool env page_ids d None r = (res1, r1)"
        by (cases "recycle_pages_from_pool env page_ids d None r") auto
      have w: "0 + grant_size (insert_grant_pool r) < 2 ^ 63" using window None by simp
      from recycle_pages_from_pool_between [OF lp o w sp] obtain new a' where
        n: "recycler_trace r1 = recycler_trace r @ new"
           "a' + grant_size (insert_grant_pool r1) \<le> 0 + grant_size (insert_grant_pool r)"
           "sw_slot_offset (wal_slot_writer r1) = ?base + of_nat a'"
           "inserts_between ?base 0 a' new"
           "\<forall>sp'. res1 = Inr sp' \<longrightarrow> sp' = (if page_ids = [] then None else Some (?base + of_nat a'))"
        by blast
      have "r' = r1" "\<forall>s. res = Inr s \<longrightarrow> res1 = Inr (Some s)"
        using run ne None True lp
        by (auto simp: recycle_pages_def split: sum.splits option.splits)
      moreover have "a' < 2 ^ 63" using n(2) w by simp
      ultimately show ?thesis using n ne
        by (intro exI [where x = new] exI [where x = a']) auto
    qed
  next
    case (Some g)
    show ?thesis
    proof (cases "d < kMaxPageRefDepth env")
      case False
      then have "r' = r" "\<forall>s. res \<noteq> Inr s"
        using run ne Some by (auto simp: recycle_pages_def)
      then show ?thesis by (intro exI [where x = "[]"] exI [where x = 0]) auto
    next
      case True
      obtain res1 g1 r1 where lp: "recycle_pages_with_grant env page_ids d None g r = (res1, g1, r1)"
        by (cases "recycle_pages_with_grant env page_ids d None g r") auto
      have w: "0 + grant_size g < 2 ^ 63" using window Some by simp
      from recycle_pages_with_grant_between [OF lp o w sp] obtain new a' where
        n: "recycler_trace r1 = recycler_trace r @ new"
           "a' + grant_size g1 = 0 + grant_size g"
           "sw_slot_offset (wal_slot_writer r1) = ?base + of_nat a'"
           "inserts_between ?base 0 a' new"
           "\<forall>sp'. res1 = Inr sp' \<longrightarrow> sp' = (if page_ids = [] then None else Some (?base + of_nat a'))"
        by blast
      have "r' = r1" "\<forall>s. res = Inr s \<longrightarrow> res1 = Inr (Some s)"
        using run ne Some True lp
        by (auto simp: recycle_pages_def split: sum.splits option.splits)
      moreover have "a' < 2 ^ 63" using n(2) w by simp
      ultimately show ?thesis using n ne
        by (intro exI [where x = new] exI [where x = a']) auto
    qed
  qed
  then obtain new a' where
    n: "recycler_trace r' = recycler_trace r @ new" "a' < 2 ^ 63"
       "sw_slot_offset (wal_slot_writer r') = ?base + of_nat a'"
       "inserts_between ?base 0 a' new"
       "\<forall>s. res = Inr s \<longrightarrow> s = ?base + of_nat a'"
    by blast
  note ap = appended_slots_inserts [OF n(4)]
  have e: "new = [] \<longrightarrow> a' = 0" using n(4) by (simp add: inserts_between_def)
  have hi: "\<forall>sr \<in> set (map fst (appended_slots new)).
              \<not> slot_less_than (?base + of_nat a') (upper_bound sr)"
  proof
    fix sr assume "sr \<in> set (map fst (appended_slots new))"
    then obtain j where "j \<le> a'" "upper_bound sr = ?base + of_nat j" using ap by blast
    then show "\<not> slot_less_than (?base + of_nat a') (upper_bound sr)"
      using not_slot_less_than_offset [of j a' ?base] n(2) by simp
  qed
  show "\<exists>new. recycler_trace r' = recycler_trace r @ new \<and>
               (\<forall>s. res = Inr s \<longrightarrow>
                  s = sw_slot_offset (wal_slot_writer r') \<and>
                  (if appended_slots new = [] then s = sw_slot_offset (wal_slot_writer r)
                   else s = upper_bound (fst (last (appended_slots new)))) \<and>
                  (\<forall>sr \<in> set (map fst (appended_slots new)).
                      \<not> slot_less_than s (upper_bound sr)))"
  proof (intro exI [where x = new] conjI allI impI)
    show "recycler_trace r' = recycler_trace r @ new" by (rule n(1))
  next
    fix s assume "res = Inr s"
    then have s: "s = ?base + of_nat a'" using n(5) by simp
    show "s = sw_slot_offset (wal_slot_writer r')" using s n(3) by simp
    show "if appended_slots new = [] then s = sw_slot_offset (wal_slot_writer r)
          else s = upper_bound (fst (last (appended_slots new)))"
      using ap e s by auto
    show "\<forall>sr \<in> set (map fst (appended_slots new)). \<not> slot_less_than s (upper_bound sr)"
      using hi s by simp
  qed
qed

lemma find_append_None:
  "find P xs = None \<Longrightarrow> find P (xs @ ys) = find P ys"
  by (induction xs) (auto split: if_splits)

lemma find_map_page_id:
  assumes "\<And>q. page_id (f q) = page_id q"
  shows "find (\<lambda>p. page_id p = pid) (map f xs) = map_option f (find (\<lambda>p. page_id p = pid) xs)"
  using assms by (induction xs) auto

lemma RecyclerState_insert_noop:
  assumes "find (\<lambda>p. page_id p = pid) pend = Some p" and "d \<le> depth p"
  shows "RecyclerState_insert \<lparr> page_id = pid, slot_offset = so, depth = d \<rparr> pend = ([], pend)"
  using assms by (simp add: RecyclerState_insert_def)

lemma RecyclerState_insert_pending:
  "\<exists>q. find (\<lambda>p. page_id p = pid)
          (snd (RecyclerState_insert \<lparr> page_id = pid, slot_offset = so, depth = d \<rparr> pend)) = Some q \<and>
        d \<le> depth q"
proof (cases "find (\<lambda>p. page_id p = pid) pend")
  case None
  then show ?thesis
    by (simp add: RecyclerState_insert_def find_append_None)
next
  case (Some p)
  show ?thesis
  proof (cases "d \<le> depth p")
    case True
    then show ?thesis using Some by (simp add: RecyclerState_insert_def)
  next
    case False
    let ?f = "\<lambda>q. if page_id q = pid then q\<lparr>depth := d\<rparr> else q"
    have pp: "page_id p = pid" using Some by (auto dest: find_Some_iff [THEN iffD1])
    have "find (\<lambda>p. page_id p = pid) (map ?f pend) = map_option ?f (find (\<lambda>p. page_id p = pid) pend)"
      by (rule find_map_page_id) simp
    then have "find (\<lambda>p. page_id p = pid) (map ?f pend) = Some (p\<lparr>depth := d\<rparr>)"
      using Some pp by simp
    moreover have "snd (RecyclerState_insert \<lparr> page_id = pid, slot_offset = so, depth = d \<rparr> pend) =
                     map ?f pend"
      using Some False by (simp add: RecyclerState_insert_def)
    ultimately show ?thesis by simp
  qed
qed

lemma insert_to_log_noop:
  assumes "find (\<lambda>p. page_id p = pid) (pending r) = Some p" and "d \<le> depth p"
  shows "insert_to_log env g pid d r = (Inr (sw_slot_offset (wal_slot_writer r)), g, r)"
  using RecyclerState_insert_noop [OF assms]
  by (simp add: insert_to_log_def Let_def)

lemma insert_to_log_pending:
  assumes "insert_to_log env g pid d r = (res, g', r')"
  shows "\<exists>q. find (\<lambda>p. page_id p = pid) (pending r') = Some q \<and> d \<le> depth q"
  using insert_to_log_frame [OF assms] RecyclerState_insert_pending by simp

text \<open>
  C4. For a page that is already pending with a depth at least that of the insertion,
  \<open>insert_to_log\<close> returns the current slot offset and leaves the recycler and the
  grant exactly as they were: no slot is appended and no byte of the grant is used. After
  a successful \<open>recycle_pages\<close> of one page, the same call again writes nothing to the
  log: the trace, the slot offset and the pending pages stay as they are and the supplied
  grant comes back unchanged; it returns the current slot offset, unless (without a
  grant of the caller) the insert grant pool is too small for the wait to end.
\<close>

theorem C4_insert_idempotent:
  "(find (\<lambda>p. page_id p = pid) (pending r) = Some p \<and> d \<le> depth p \<longrightarrow>
      insert_to_log env g pid d r = (Inr (sw_slot_offset (wal_slot_writer r)), g, r)) \<and>
   (recycle_pages env [pid] grant d r = (Inr s1, grant1, r1) \<longrightarrow>
      (\<exists>res2 r2. recycle_pages env [pid] grant1 d r1 = (res2, grant1, r2) \<and>
          recycler_trace r2 = recycler_trace r1 \<and>
          sw_slot_offset (wal_slot_writer r2) = sw_slot_offset (wal_slot_writer r1) \<and>
          pending r2 = pending r1 \<and>
          (res2 = Inr (sw_slot_offset (wal_slot_writer r1)) \<or>
           grant1 = None \<and> grant_size (insert_grant_pool r1) < insert_grant_size (options r1) \<and>
           res2 = Inl (Status kCancelled))))"
proof (rule conjI; rule impI)
  assume "find (\<lambda>p. page_id p = pid) (pending r) = Some p \<and> d \<le> depth p"
  then show "insert_to_log env g pid d r = (Inr (sw_slot_offset (wal_slot_writer r)), g, r)"
    using insert_to_log_noop by blast
next
  assume run: "recycle_pages env [pid] grant d r = (Inr s1, grant1, r1)"
  show "\<exists>res2 r2. recycle_pages env [pid] grant1 d r1 = (res2, grant1, r2) \<and>
          recycler_trace r2 = recycler_trace r1 \<and>
          sw_slot_offset (wal_slot_writer r2) = sw_slot_offset (wal_slot_writer r1) \<and>
          pending r2 = pending r1 \<and>
          (res2 = Inr (sw_slot_offset (wal_slot_writer r1)) \<or>
           grant1 = None \<and> grant_size (insert_grant_pool r1) < insert_grant_size (options r1) \<and>
           res2 = Inl (Status kCancelled))"
  proof (cases grant)
    case None
    have d0: "d = 0" using run None by (auto simp: recycle_pages_def split: if_splits)
    let ?n = "insert_grant_size (options r)"
    obtain lg pool1 where sp: "grant_spend_wait ?n (insert_grant_pool r) = Inr (lg, pool1)"
      using run None d0 by (auto simp: recycle_pages_def split: sum.splits)
    obtain res0 g0 r0 where il: "insert_to_log env lg pid 0 (r\<lparr>insert_grant_pool := pool1\<rparr>) = (res0, g0, r0)"
      by (cases "insert_to_log env lg pid 0 (r\<lparr>insert_grant_pool := pool1\<rparr>)") auto
    have r1: "r1 = r0\<lparr>wal_slot_writer := release_grant g0 (wal_slot_writer r0)\<rparr>" "grant1 = None"
      using run None d0 sp il by (auto simp: recycle_pages_def split: sum.splits option.splits)
    from insert_to_log_pending [OF il] obtain q where
      q: "find (\<lambda>p. page_id p = pid) (pending r1) = Some q" "0 \<le> depth q"
      using r1 by auto
    show ?thesis
    proof (cases "grant_size (insert_grant_pool r1) < insert_grant_size (options r1)")
      case True
      then have "recycle_pages env [pid] None 0 r1 = (Inl (Status kCancelled), None, r1)"
        by (simp add: recycle_pages_def grant_spend_wait_def)
      then show ?thesis using r1 d0 True by auto
    next
      case False
      let ?lg = "\<lparr> issuer = issuer (insert_grant_pool r1), grant_size = insert_grant_size (options r1) \<rparr>"
      let ?p1 = "(insert_grant_pool r1)\<lparr>grant_size := grant_size (insert_grant_pool r1) - insert_grant_size (options r1)\<rparr>"
      have q': "find (\<lambda>p. page_id p = pid) (pending (r1\<lparr>insert_grant_pool := ?p1\<rparr>)) = Some q"
        using q by simp
      have "insert_to_log env ?lg pid 0 (r1\<lparr>insert_grant_pool := ?p1\<rparr>) =
              (Inr (sw_slot_offset (wal_slot_writer r1)), ?lg, r1\<lparr>insert_grant_pool := ?p1\<rparr>)"
        using insert_to_log_noop [OF q', of 0 env ?lg] by simp
      then have "recycle_pages env [pid] None 0 r1 =
           (Inr (sw_slot_offset (wal_slot_writer r1)), None,
            r1\<lparr>insert_grant_pool := ?p1,
               wal_slot_writer := release_grant ?lg (wal_slot_writer r1)\<rparr>)"
        using False
        by (simp add: recycle_pages_def grant_spend_wait_def clamp_min_slot_def slot_max_def
            slot_less_than_irrefl)
      then show ?thesis using r1 d0 by (auto simp: release_grant_def)
    qed
  next
    case (Some g)
    have dk: "d < kMaxPageRefDepth env" using run Some by (auto simp: recycle_pages_def split: if_splits)
    obtain res0 g0 r0 where il: "insert_to_log env g pid d r = (res0, g0, r0)"
      by (cases "insert_to_log env g pid d r") auto
    have r1: "r1 = r0" "grant1 = Some g0"
      using run Some dk il by (auto simp: recycle_pages_def split: sum.splits option.splits)
    from insert_to_log_pending [OF il] obtain q where
      q: "find (\<lambda>p. page_id p = pid) (pending r1) = Some q" "d \<le> depth q"
      using r1 by auto
    have "insert_to_log env g0 pid d r1 = (Inr (sw_slot_offset (wal_slot_writer r1)), g0, r1)"
      using insert_to_log_noop [OF q] by simp
    then have "recycle_pages env [pid] (Some g0) d r1 =
           (Inr (sw_slot_offset (wal_slot_writer r1)), Some g0, r1)"
      using dk
      by (simp add: recycle_pages_def clamp_min_slot_def slot_max_def slot_less_than_irrefl)
    then show ?thesis using r1 by auto
  qed
qed

text \<open>The prepare slots of a batch, as the events that wrote them.\<close>

lemma write_prepare_slots_trace:
  assumes "write_prepare_slots env batch pages sub r = (res, r')"
  shows "\<exists>ranges. length ranges \<le> length pages \<and>
           recycler_trace r' = recycler_trace r @
             map (\<lambda>(sr, p). R_append sr (PackedRecyclePagePrepare (page_id p) (batch_slot_offset batch)))
               (zip ranges pages) \<and>
           (\<forall>x. res = Inr x \<longrightarrow> length ranges = length pages \<and> (pages \<noteq> [] \<longrightarrow> x \<noteq> None)) \<and>
           (ranges \<noteq> [] \<longrightarrow> lower_bound (hd ranges) = sw_slot_offset (wal_slot_writer r)) \<and>
           (ranges = [] \<longrightarrow> r' = r) \<and>
           pending r' = pending r \<and> options r' = options r \<and>
           stop_requested r' = stop_requested r \<and>
           latest_info_refresh_slot r' = latest_info_refresh_slot r \<and>
           latest_batch_upper_bound r' = latest_batch_upper_bound r \<and>
           prepared_batch r' = prepared_batch r \<and>
           insert_grant_pool r' = insert_grant_pool r \<and>
           wal_durable_upper_bound r' = wal_durable_upper_bound r"
  using assms
proof (induction pages arbitrary: sub r)
  case Nil
  then show ?case by auto
next
  case (Cons next_page pages)
  let ?p = "PackedRecyclePagePrepare (page_id next_page) (batch_slot_offset batch)"
  show ?case
  proof (cases "stop_requested r")
    case True
    then have "res = Inl (Status kCancelled)" "r' = r" using Cons.prems by auto
    then show ?thesis by (intro exI [where x = "[]"]) auto
  next
    case False
    show ?thesis
    proof (cases "slot_writer_append (packed_sizeof env ?p) (recycle_task_grant r) (wal_slot_writer r)")
      case (Inl f)
      then have "res = Inl f" "r' = r" using Cons.prems False by auto
      then show ?thesis by (intro exI [where x = "[]"]) auto
    next
      case (Inr x)
      obtain sr g1 w1 where x: "x = (sr, g1, w1)" by (cases x) auto
      from slot_writer_append_Inr [OF Inr [unfolded x]]
      have lb: "lower_bound sr = sw_slot_offset (wal_slot_writer r)" by simp
      let ?r1 = "log_event (R_append sr ?p) (r\<lparr>wal_slot_writer := w1, recycle_task_grant := g1\<rparr>)"
      have run: "write_prepare_slots env batch pages (clamp_min_slot sub (upper_bound sr)) ?r1 = (res, r')"
        using Cons.prems False Inr x by simp
      from Cons.IH [OF run] obtain ranges where
        n: "length ranges \<le> length pages"
           "recycler_trace r' = recycler_trace ?r1 @
             map (\<lambda>(sr, p). R_append sr (PackedRecyclePagePrepare (page_id p) (batch_slot_offset batch)))
               (zip ranges pages)"
           "\<forall>x. res = Inr x \<longrightarrow> length ranges = length pages \<and> (pages \<noteq> [] \<longrightarrow> x \<noteq> None)"
           "pending r' = pending ?r1 \<and> options r' = options ?r1 \<and>
            stop_requested r' = stop_requested ?r1 \<and>
            latest_info_refresh_slot r' = latest_info_refresh_slot ?r1 \<and>
            latest_batch_upper_bound r' = latest_batch_upper_bound ?r1 \<and>
            prepared_batch r' = prepared_batch ?r1 \<and>
            insert_grant_pool r' = insert_grant_pool ?r1 \<and>
            wal_durable_upper_bound r' = wal_durable_upper_bound ?r1"
        by blast
      have some: "\<forall>x. res = Inr x \<longrightarrow> x \<noteq> None"
      proof (cases "pages = []")
        case True
        then show ?thesis using run by (auto simp: clamp_min_slot_def)
      next
        case False
        then show ?thesis using n(3) by auto
      qed
      show ?thesis
        using n lb some by (intro exI [where x = "sr # ranges"]) auto
    qed
  qed
qed


lemma slot_writer_append_not_deref:
  "slot_writer_append n g w \<noteq> Inl Deref_empty_optional"
  by (auto simp: slot_writer_append_def Let_def)

lemma append_items_safe:
  assumes "append_items env items last_slot g r = (res, g', r')"
  shows "res \<noteq> Inl Deref_empty_optional \<and>
         (\<exists>new. recycler_trace r' = recycler_trace r @ new \<and>
            (\<forall>e \<in> set new. \<exists>sr it. e = R_append sr (PackedPageToRecycle it)))"
  using assms
proof (induction items arbitrary: last_slot g r)
  case Nil
  then show ?case by auto
next
  case (Cons item items)
  show ?case
  proof (cases "slot_writer_append (packed_sizeof env (PackedPageToRecycle item)) g (wal_slot_writer r)")
    case (Inl f)
    then have "res = Inl f" "r' = r" using Cons.prems by auto
    then show ?thesis using Inl slot_writer_append_not_deref [of _ g "wal_slot_writer r"] by auto
  next
    case (Inr x)
    obtain sr g1 w1 where x: "x = (sr, g1, w1)" by (cases x) auto
    let ?r1 = "log_event (R_append sr (PackedPageToRecycle item)) (r\<lparr>wal_slot_writer := w1\<rparr>)"
    have run: "append_items env items (slot_max last_slot (upper_bound sr)) g1 ?r1 = (res, g', r')"
      using Cons.prems Inr x by simp
    from Cons.IH [OF run] obtain new where
      n: "res \<noteq> Inl Deref_empty_optional" "recycler_trace r' = recycler_trace ?r1 @ new"
         "\<forall>e \<in> set new. \<exists>sr it. e = R_append sr (PackedPageToRecycle it)"
      by blast
    show ?thesis
      using n by (intro conjI exI [where x = "R_append sr (PackedPageToRecycle item) # new"]) auto
  qed
qed

lemma insert_to_log_safe:
  assumes "insert_to_log env g pid d r = (res, g', r')"
  shows "res \<noteq> Inl Deref_empty_optional \<and>
         (\<exists>new. recycler_trace r' = recycler_trace r @ new \<and>
            (\<forall>e \<in> set new. \<exists>sr it. e = R_append sr (PackedPageToRecycle it)))"
proof -
  let ?item = "\<lparr> page_id = pid, slot_offset = sw_slot_offset (wal_slot_writer r), depth = d \<rparr>"
  obtain to_append pending1 where ins: "RecyclerState_insert ?item (pending r) = (to_append, pending1)"
    by (cases "RecyclerState_insert ?item (pending r)") auto
  show ?thesis
  proof (cases "to_append = []")
    case True
    then have "res = Inr (sw_slot_offset (wal_slot_writer r))" "r' = r\<lparr>pending := pending1\<rparr>"
      using assms ins by (auto simp: insert_to_log_def Let_def)
    then show ?thesis by auto
  next
    case False
    let ?r1 = "r\<lparr>pending := pending1\<rparr>"
    obtain res2 g2 r2 where
      ai: "append_items env to_append (sw_slot_offset (wal_slot_writer r)) g ?r1 = (res2, g2, r2)"
      by (cases "append_items env to_append (sw_slot_offset (wal_slot_writer r)) g ?r1") auto
    have eq: "r' = r2" "res = Inl Deref_empty_optional \<longrightarrow> res2 = Inl Deref_empty_optional"
      using assms ins False ai by (auto simp: insert_to_log_def Let_def split: sum.splits if_splits)
    from append_items_safe [OF ai] show ?thesis using eq by auto
  qed
qed

lemma recycle_pages_with_grant_safe:
  assumes "recycle_pages_with_grant env pids d sp g r = (res, g', r')"
  shows "res \<noteq> Inl Deref_empty_optional \<and>
         options r' = options r \<and> stop_requested r' = stop_requested r \<and>
         (\<exists>new. recycler_trace r' = recycler_trace r @ new \<and>
            (\<forall>e \<in> set new. \<exists>sr it. e = R_append sr (PackedPageToRecycle it)))"
  using assms
proof (induction pids arbitrary: sp g r)
  case Nil
  then show ?case by auto
next
  case (Cons pid pids)
  obtain res1 g1 r1 where il: "insert_to_log env g pid d r = (res1, g1, r1)"
    by (cases "insert_to_log env g pid d r") auto
  from insert_to_log_safe [OF il] obtain new1 where
    n1: "res1 \<noteq> Inl Deref_empty_optional" "recycler_trace r1 = recycler_trace r @ new1"
        "\<forall>e \<in> set new1. \<exists>sr it. e = R_append sr (PackedPageToRecycle it)"
    by blast
  have f1: "options r1 = options r" "stop_requested r1 = stop_requested r"
    using insert_to_log_frame [OF il] by simp_all
  show ?case
  proof (cases res1)
    case (Inl f)
    then have "res = Inl f" "r' = r1" using Cons.prems il by auto
    then show ?thesis using n1 f1 Inl by auto
  next
    case (Inr s)
    then have run: "recycle_pages_with_grant env pids d (clamp_min_slot sp s) g1 r1 = (res, g', r')"
      using Cons.prems il by simp
    from Cons.IH [OF run] obtain new2 where
      n2: "res \<noteq> Inl Deref_empty_optional" "options r' = options r1"
          "stop_requested r' = stop_requested r1"
          "recycler_trace r' = recycler_trace r1 @ new2"
          "\<forall>e \<in> set new2. \<exists>sr it. e = R_append sr (PackedPageToRecycle it)"
      by blast
    show ?thesis
      using n1 n2 f1 by (intro conjI exI [where x = "new1 @ new2"]) auto
  qed
qed

lemma recycle_pages_from_pool_safe:
  assumes "recycle_pages_from_pool env pids d sp r = (res, r')"
  shows "res \<noteq> Inl Deref_empty_optional \<and>
         options r' = options r \<and> stop_requested r' = stop_requested r \<and>
         recycle_task_grant r' = recycle_task_grant r \<and>
         (\<exists>new. recycler_trace r' = recycler_trace r @ new \<and>
            (\<forall>e \<in> set new. \<exists>sr it. e = R_append sr (PackedPageToRecycle it)))"
  using assms
proof (induction pids arbitrary: sp r)
  case Nil
  then show ?case by auto
next
  case (Cons pid pids)
  let ?n = "insert_grant_size (options r)"
  show ?case
  proof (cases "grant_spend_wait ?n (insert_grant_pool r)")
    case (Inl f)
    then have "res = Inl f" "r' = r" using Cons.prems by auto
    moreover have "f \<noteq> Deref_empty_optional"
      using Inl by (auto simp: grant_spend_wait_def split: if_splits)
    ultimately show ?thesis by auto
  next
    case (Inr x)
    obtain lg pool1 where x: "x = (lg, pool1)" by (cases x) auto
    let ?r0 = "r\<lparr>insert_grant_pool := pool1\<rparr>"
    obtain res1 g1 r1 where il: "insert_to_log env lg pid d ?r0 = (res1, g1, r1)"
      by (cases "insert_to_log env lg pid d ?r0") auto
    from insert_to_log_safe [OF il] obtain new1 where
      n1: "res1 \<noteq> Inl Deref_empty_optional" "recycler_trace r1 = recycler_trace r @ new1"
          "\<forall>e \<in> set new1. \<exists>sr it. e = R_append sr (PackedPageToRecycle it)"
      by auto
    have f1: "options r1 = options r" "stop_requested r1 = stop_requested r"
      "recycle_task_grant r1 = recycle_task_grant r"
      using insert_to_log_frame [OF il] by simp_all
    let ?r1 = "r1\<lparr>wal_slot_writer := release_grant g1 (wal_slot_writer r1)\<rparr>"
    show ?thesis
    proof (cases res1)
      case (Inl f)
      then have "res = Inl f" "r' = ?r1" using Cons.prems Inr x il by auto
      then show ?thesis using n1 f1 Inl by auto
    next
      case inr: (Inr s)
      then have run: "recycle_pages_from_pool env pids d (clamp_min_slot sp s) ?r1 = (res, r')"
        using Cons.prems Inr x il by simp
      from Cons.IH [OF run] obtain new2 where
        n2: "res \<noteq> Inl Deref_empty_optional" "options r' = options ?r1"
            "stop_requested r' = stop_requested ?r1"
            "recycle_task_grant r' = recycle_task_grant ?r1"
            "recycler_trace r' = recycler_trace ?r1 @ new2"
            "\<forall>e \<in> set new2. \<exists>sr it. e = R_append sr (PackedPageToRecycle it)"
        by blast
      show ?thesis
        using n1 n2 f1 by (intro conjI exI [where x = "new1 @ new2"]) auto
    qed
  qed
qed

lemma recycle_pages_safe:
  assumes "recycle_pages env page_ids grant d r = (res, grant', r')"
  shows "res \<noteq> Inl Deref_empty_optional \<and>
         options r' = options r \<and> stop_requested r' = stop_requested r \<and>
         (\<exists>new. recycler_trace r' = recycler_trace r @ new \<and>
            (\<forall>e \<in> set new. \<exists>sr it. e = R_append sr (PackedPageToRecycle it)))"
proof (cases "page_ids = []")
  case True
  then show ?thesis using assms by (auto simp: recycle_pages_def)
next
  case ne: False
  show ?thesis
  proof (cases grant)
    case None
    show ?thesis
    proof (cases "d = 0")
      case False
      then show ?thesis using assms ne None by (auto simp: recycle_pages_def)
    next
      case True
      obtain res1 r1 where lp: "recycle_pages_from_pool env page_ids d None r = (res1, r1)"
        by (cases "recycle_pages_from_pool env page_ids d None r") auto
      have "r' = r1" "res = Inl Deref_empty_optional \<longrightarrow> res1 = Inl Deref_empty_optional"
        using assms ne None True lp
        by (auto simp: recycle_pages_def split: sum.splits option.splits)
      then show ?thesis using recycle_pages_from_pool_safe [OF lp] by auto
    qed
  next
    case (Some g)
    show ?thesis
    proof (cases "d < kMaxPageRefDepth env")
      case False
      then show ?thesis using assms ne Some by (auto simp: recycle_pages_def)
    next
      case True
      obtain res1 g1 r1 where lp: "recycle_pages_with_grant env page_ids d None g r = (res1, g1, r1)"
        by (cases "recycle_pages_with_grant env page_ids d None g r") auto
      have "r' = r1" "res = Inl Deref_empty_optional \<longrightarrow> res1 = Inl Deref_empty_optional"
        using assms ne Some True lp
        by (auto simp: recycle_pages_def split: sum.splits option.splits)
      then show ?thesis using recycle_pages_with_grant_safe [OF lp] by auto
    qed
  qed
qed

lemma is_batch_commit_simps [simp]:
  "is_batch_commit (R_append sr (PackedRecycleBatchCommit b))"
  "\<not> is_batch_commit (R_append sr (PackedPageToRecycle it))"
  "\<not> is_batch_commit (R_append sr (PackedRecyclePagePrepare pid b))"
  "\<not> is_batch_commit (R_append sr PackedPageRecyclerInfo)"
  "\<not> is_batch_commit (R_flush ub st)"
  "\<not> is_batch_commit (R_delete_pages pages b)"
  "\<not> is_batch_commit (R_delete_pages_returned b st)"
  "\<not> is_batch_commit (R_trim tp)"
  by (simp_all add: is_batch_commit_def)

lemma is_delete_pages_simps [simp]:
  "\<not> is_delete_pages (R_append sr p)"
  "\<not> is_delete_pages (R_flush ub st)"
  "is_delete_pages (R_delete_pages pages b)"
  "\<not> is_delete_pages (R_delete_pages_returned b st)"
  "\<not> is_delete_pages (R_trim tp)"
  by (simp_all add: is_delete_pages_def)

lemma filter_inserts_no_commit:
  "\<forall>e \<in> set new. \<exists>sr it. e = R_append sr (PackedPageToRecycle it) \<Longrightarrow>
   filter is_batch_commit new = []"
  by (induction new) auto

text \<open>One call of the page deleter, with the recycling it triggers.\<close>

lemma delete_batch_pages_trace:
  assumes "delete_batch_pages env batch attempt r = (res, r')"
  shows "res \<noteq> Inl Deref_empty_optional \<and>
         options r' = options r \<and> stop_requested r' = stop_requested r \<and>
         (\<exists>new. recycler_trace r' = recycler_trace r @ new \<and>
            filter is_batch_commit new = [] \<and>
            (res = Inr () \<longrightarrow>
               \<not> stop_requested r \<and>
               (\<exists>mid. new = R_delete_pages (to_recycle batch) (batch_slot_offset batch) # mid @
                        [R_delete_pages_returned (batch_slot_offset batch) OkStatus])))"
proof (cases "stop_requested r")
  case True
  then have "res = Inl (Status kRecyclerStopped)" "r' = r"
    using assms by (auto simp: delete_batch_pages_def)
  then show ?thesis by auto
next
  case False
  obtain dropped_refs delete_result where
    dp: "delete_pages env attempt (to_recycle batch) (batch_slot_offset batch) = (dropped_refs, delete_result)"
    by (cases "delete_pages env attempt (to_recycle batch) (batch_slot_offset batch)") auto
  let ?r0 = "log_event (R_delete_pages (to_recycle batch) (batch_slot_offset batch)) r"
  obtain res1 g1 r1 where
    rp: "recycle_pages env dropped_refs (Some (recycle_task_grant r)) (Suc (batch_depth batch)) ?r0
           = (res1, g1, r1)"
    by (cases "recycle_pages env dropped_refs (Some (recycle_task_grant r)) (Suc (batch_depth batch)) ?r0") auto
  from recycle_pages_safe [OF rp] obtain new1 where
    n1: "res1 \<noteq> Inl Deref_empty_optional" "options r1 = options r" "stop_requested r1 = stop_requested r"
        "recycler_trace r1 = recycler_trace r @ R_delete_pages (to_recycle batch) (batch_slot_offset batch) # new1"
        "\<forall>e \<in> set new1. \<exists>sr it. e = R_append sr (PackedPageToRecycle it)"
    by auto
  note nc = filter_inserts_no_commit [OF n1(5)]
  show ?thesis
  proof (cases res1)
    case (Inl f)
    show ?thesis
    proof (cases f)
      case (Status e)
      then have "res = Inl (Status e)"
        "r' = log_event (R_delete_pages_returned (batch_slot_offset batch) e)
               (r1\<lparr>recycle_task_grant := case_option (recycle_task_grant r1) id g1\<rparr>)"
        using assms False dp rp Inl by (auto simp: delete_batch_pages_def)
      then show ?thesis using n1 nc
        by (intro conjI exI [where x = "R_delete_pages (to_recycle batch) (batch_slot_offset batch) # new1 @
              [R_delete_pages_returned (batch_slot_offset batch) e]"]) auto
    next
      case (Check_failed m)
      then have "res = Inl (Check_failed m)" "r' = r1"
        using assms False dp rp Inl by (auto simp: delete_batch_pages_def)
      then show ?thesis using n1 nc
        by (intro conjI exI [where x = "R_delete_pages (to_recycle batch) (batch_slot_offset batch) # new1"]) auto
    next
      case Deref_empty_optional
      then show ?thesis using n1 Inl by simp
    next
      case Use_after_move
      then have "res = Inl Use_after_move" "r' = r1"
        using assms False dp rp Inl by (auto simp: delete_batch_pages_def)
      then show ?thesis using n1 nc
        by (intro conjI exI [where x = "R_delete_pages (to_recycle batch) (batch_slot_offset batch) # new1"]) auto
    qed
  next
    case (Inr s)
    then have rr: "res = (if delete_result = OkStatus then Inr () else Inl (Status delete_result))"
      "r' = log_event (R_delete_pages_returned (batch_slot_offset batch) delete_result)
               (r1\<lparr>recycle_task_grant := case_option (recycle_task_grant r1) id g1\<rparr>)"
      using assms False dp rp by (auto simp: delete_batch_pages_def)
    show ?thesis
      using rr n1 nc False
      by (intro conjI exI [where x = "R_delete_pages (to_recycle batch) (batch_slot_offset batch) # new1 @
              [R_delete_pages_returned (batch_slot_offset batch) delete_result]"])
         (auto split: if_splits)
  qed
qed

lemma with_retry_delete_trace:
  assumes "with_retry_policy retryable n (delete_batch_pages env batch) attempt r = (res, r')"
  shows "res \<noteq> Inl Deref_empty_optional \<and>
         options r' = options r \<and> stop_requested r' = stop_requested r \<and>
         (\<exists>new. recycler_trace r' = recycler_trace r @ new \<and>
            filter is_batch_commit new = [] \<and>
            (res = Inr () \<longrightarrow>
               \<not> stop_requested r \<and>
               (\<exists>mid. new = R_delete_pages (to_recycle batch) (batch_slot_offset batch) # mid @
                        [R_delete_pages_returned (batch_slot_offset batch) OkStatus])))"
  using assms
proof (induction n arbitrary: attempt r)
  case 0
  then show ?case using delete_batch_pages_trace [of env batch attempt r res r'] by simp
next
  case (Suc n)
  obtain res1 r1 where d1: "delete_batch_pages env batch attempt r = (res1, r1)"
    by (cases "delete_batch_pages env batch attempt r") auto
  from delete_batch_pages_trace [OF d1] obtain new1 where
    n1: "res1 \<noteq> Inl Deref_empty_optional" "options r1 = options r"
        "stop_requested r1 = stop_requested r"
        "recycler_trace r1 = recycler_trace r @ new1" "filter is_batch_commit new1 = []"
        "res1 = Inr () \<longrightarrow>
               \<not> stop_requested r \<and>
               (\<exists>mid. new1 = R_delete_pages (to_recycle batch) (batch_slot_offset batch) # mid @
                        [R_delete_pages_returned (batch_slot_offset batch) OkStatus])"
    by blast
  show ?case
  proof (cases "\<exists>e. res1 = Inl (Status e) \<and> retryable e")
    case False
    then have "res = res1" "r' = r1"
      using Suc.prems d1 by (auto split: sum.splits failure.splits if_splits)
    then show ?thesis using n1 by auto
  next
    case True
    then obtain e where e: "res1 = Inl (Status e)" "retryable e" by blast
    then have run: "with_retry_policy retryable n (delete_batch_pages env batch) (Suc attempt) r1 = (res, r')"
      using Suc.prems d1 by simp
    from Suc.IH [OF run] obtain new2 where
      n2: "res \<noteq> Inl Deref_empty_optional" "options r' = options r1"
          "stop_requested r' = stop_requested r1"
          "recycler_trace r' = recycler_trace r1 @ new2" "filter is_batch_commit new2 = []"
          "res = Inr () \<longrightarrow>
               \<not> stop_requested r1 \<and>
               (\<exists>mid. new2 = R_delete_pages (to_recycle batch) (batch_slot_offset batch) # mid @
                        [R_delete_pages_returned (batch_slot_offset batch) OkStatus])"
      by blast
    have first: "\<not> stop_requested r \<longrightarrow> (\<exists>tl1. new1 = R_delete_pages (to_recycle batch) (batch_slot_offset batch) # tl1)"
    proof
      assume ns: "\<not> stop_requested r"
      obtain dr ds where dp: "delete_pages env attempt (to_recycle batch) (batch_slot_offset batch) = (dr, ds)"
        by (cases "delete_pages env attempt (to_recycle batch) (batch_slot_offset batch)") auto
      let ?r0 = "log_event (R_delete_pages (to_recycle batch) (batch_slot_offset batch)) r"
      obtain resx gx rx where
        rp: "recycle_pages env dr (Some (recycle_task_grant r)) (Suc (batch_depth batch)) ?r0 = (resx, gx, rx)"
        by (cases "recycle_pages env dr (Some (recycle_task_grant r)) (Suc (batch_depth batch)) ?r0") auto
      from recycle_pages_safe [OF rp] obtain newx where
        "recycler_trace rx = recycler_trace ?r0 @ newx" by blast
      moreover have "recycler_trace r1 = recycler_trace rx \<or>
                     (\<exists>st. recycler_trace r1 = recycler_trace rx @ [R_delete_pages_returned (batch_slot_offset batch) st])"
        using d1 ns dp rp
        by (auto simp: delete_batch_pages_def split: sum.splits failure.splits if_splits)
      ultimately show "\<exists>tl1. new1 = R_delete_pages (to_recycle batch) (batch_slot_offset batch) # tl1"
        using n1(4) by auto
    qed
    have fin: "res = Inr () \<longrightarrow>
               \<not> stop_requested r \<and>
               (\<exists>mid. new1 @ new2 = R_delete_pages (to_recycle batch) (batch_slot_offset batch) # mid @
                        [R_delete_pages_returned (batch_slot_offset batch) OkStatus])"
    proof (intro impI)
      assume "res = Inr ()"
      then obtain mid2 where m: "\<not> stop_requested r1"
        "new2 = R_delete_pages (to_recycle batch) (batch_slot_offset batch) # mid2 @
                        [R_delete_pages_returned (batch_slot_offset batch) OkStatus]"
        using n2(6) by blast
      then have ns: "\<not> stop_requested r" using n1(3) by simp
      then obtain tl1 where t: "new1 = R_delete_pages (to_recycle batch) (batch_slot_offset batch) # tl1"
        using first by blast
      have "new1 @ new2 = R_delete_pages (to_recycle batch) (batch_slot_offset batch) #
              (tl1 @ R_delete_pages (to_recycle batch) (batch_slot_offset batch) # mid2) @
              [R_delete_pages_returned (batch_slot_offset batch) OkStatus]"
        using t m(2) by simp
      then show "\<not> stop_requested r \<and>
               (\<exists>mid. new1 @ new2 = R_delete_pages (to_recycle batch) (batch_slot_offset batch) # mid @
                        [R_delete_pages_returned (batch_slot_offset batch) OkStatus])"
        using ns by blast
    qed
    show ?thesis
      using n1 n2 fin by (intro conjI exI [where x = "new1 @ new2"]) auto
  qed
qed

lemma await_flush_Some:
  "await_flush env (Some ub) r = (st, r') \<Longrightarrow>
     st = wal_sync env ub \<and> recycler_trace r' = recycler_trace r @ [R_flush ub st] \<and>
     options r' = options r \<and> stop_requested r' = stop_requested r \<and>
     pending r' = pending r \<and> wal_slot_writer r' = wal_slot_writer r \<and>
     recycle_task_grant r' = recycle_task_grant r \<and>
     latest_batch_upper_bound r' = latest_batch_upper_bound r \<and>
     latest_info_refresh_slot r' = latest_info_refresh_slot r \<and>
     prepared_batch r' = prepared_batch r \<and> insert_grant_pool r' = insert_grant_pool r"
  by (auto simp: await_flush_def Let_def split: if_splits)

lemma commit_batch_trace:
  assumes "commit_batch env batch r = (res, r')"
  shows "res \<noteq> Inl Deref_empty_optional \<and>
         options r' = options r \<and> stop_requested r' = stop_requested r \<and>
         (\<exists>rest. recycler_trace r' = recycler_trace r @ rest \<and>
            (filter is_batch_commit rest \<noteq> [] \<or> res = Inr () \<longrightarrow>
               (\<exists>mid cr st.
                  rest = R_delete_pages (to_recycle batch) (batch_slot_offset batch) # mid @
                    [R_delete_pages_returned (batch_slot_offset batch) OkStatus,
                     R_append cr (PackedRecycleBatchCommit (batch_slot_offset batch)),
                     R_flush (upper_bound cr) st] \<and>
                  filter is_batch_commit mid = [] \<and>
                  (st = OkStatus \<longrightarrow> res = Inr () \<and> latest_batch_upper_bound r' = Some (upper_bound cr)) \<and>
                  (st \<noteq> OkStatus \<longrightarrow> res = Inl (Status st)))))"
proof -
  obtain res1 r1 where
    w: "with_retry_policy (status_is_retryable env) (max_retries env) (delete_batch_pages env batch) 0 r
          = (res1, r1)"
    by (cases "with_retry_policy (status_is_retryable env) (max_retries env) (delete_batch_pages env batch) 0 r") auto
  from with_retry_delete_trace [OF w] obtain new1 where
    n1: "res1 \<noteq> Inl Deref_empty_optional" "options r1 = options r"
        "stop_requested r1 = stop_requested r"
        "recycler_trace r1 = recycler_trace r @ new1" "filter is_batch_commit new1 = []"
        "res1 = Inr () \<longrightarrow>
               \<not> stop_requested r \<and>
               (\<exists>mid. new1 = R_delete_pages (to_recycle batch) (batch_slot_offset batch) # mid @
                        [R_delete_pages_returned (batch_slot_offset batch) OkStatus])"
    by blast
  show ?thesis
  proof (cases res1)
    case (Inl f)
    then have "res = Inl f" "r' = r1" using assms w by (auto simp: commit_batch_def)
    then show ?thesis using n1 Inl by (intro conjI exI [where x = new1]) auto
  next
    case (Inr u)
    then have ok: "res1 = Inr ()" by simp
    then obtain mid where m: "\<not> stop_requested r"
      "new1 = R_delete_pages (to_recycle batch) (batch_slot_offset batch) # mid @
                        [R_delete_pages_returned (batch_slot_offset batch) OkStatus]"
      using n1(6) by blast
    have ns: "\<not> stop_requested r1" using m n1(3) by simp
    have mc: "filter is_batch_commit mid = []" using n1(5) m(2) by simp
    let ?p = "PackedRecycleBatchCommit (batch_slot_offset batch)"
    show ?thesis
    proof (cases "slot_writer_append (packed_sizeof env ?p) (recycle_task_grant r1) (wal_slot_writer r1)")
      case (Inl f)
      then have "res = Inl f" "r' = r1" using assms w ok ns by (auto simp: commit_batch_def)
      moreover have "f \<noteq> Deref_empty_optional"
        using Inl slot_writer_append_not_deref [of "packed_sizeof env ?p" "recycle_task_grant r1" "wal_slot_writer r1"]
        by auto
      ultimately show ?thesis using n1 by (intro conjI exI [where x = new1]) auto
    next
      case app: (Inr x)
      obtain cr g1 w1 where x: "x = (cr, g1, w1)" by (cases x) auto
      let ?r2 = "log_event (R_append cr ?p) (r1\<lparr>wal_slot_writer := w1, recycle_task_grant := g1\<rparr>)"
      obtain st r3 where af: "await_flush env (Some (upper_bound cr)) ?r2 = (st, r3)"
        by (cases "await_flush env (Some (upper_bound cr)) ?r2") auto
      note a3 = await_flush_Some [OF af]
      have rr: "res = (if st \<noteq> OkStatus then Inl (Status st) else Inr ())"
        "r' = (if st \<noteq> OkStatus then r3 else r3\<lparr>latest_batch_upper_bound := Some (upper_bound cr)\<rparr>)"
        using assms w ok ns app x af by (auto simp: commit_batch_def)
      have tr: "recycler_trace r' = recycler_trace r @
                  R_delete_pages (to_recycle batch) (batch_slot_offset batch) # mid @
                    [R_delete_pages_returned (batch_slot_offset batch) OkStatus,
                     R_append cr ?p, R_flush (upper_bound cr) st]"
        using rr a3 n1(4) m(2) by auto
      have fr: "options r' = options r" "stop_requested r' = stop_requested r"
        using rr a3 n1 by auto
      have nd: "res \<noteq> Inl Deref_empty_optional" using rr by auto
      have fin: "(st = OkStatus \<longrightarrow> res = Inr () \<and> latest_batch_upper_bound r' = Some (upper_bound cr)) \<and>
                 (st \<noteq> OkStatus \<longrightarrow> res = Inl (Status st))"
        using rr by auto
      show ?thesis
        apply (intro conjI nd fr)
        apply (rule exI [where x = "R_delete_pages (to_recycle batch) (batch_slot_offset batch) # mid @
                    [R_delete_pages_returned (batch_slot_offset batch) OkStatus,
                     R_append cr ?p, R_flush (upper_bound cr) st]"])
        apply (rule conjI [OF tr])
        apply (rule impI)
        apply (rule exI [where x = mid], rule exI [where x = cr], rule exI [where x = st])
        using mc fin by simp
    qed
  qed
qed

text \<open>
  C3. The batch that \<open>prepare_batch\<close> returns has as \<open>slot_offset\<close> the slot offset
  of the writer on entry, which is where the first prepare slot starts, and every prepare
  slot the call writes, also on a run that fails part way, carries that offset as its
  \<open>batch_slot\<close> together with the page id of its page, in the order of the pages.
  The call appends nothing else.
\<close>

theorem C3_batch_slot_offset:
  assumes "prepare_batch env pages r = (res, r')"
  shows "\<exists>ranges flush. length ranges \<le> length pages \<and>
      recycler_trace r' = recycler_trace r @
        map (\<lambda>(sr, p). R_append sr
               (PackedRecyclePagePrepare (page_id p) (sw_slot_offset (wal_slot_writer r))))
          (zip ranges pages) @ flush \<and>
      appended_slots flush = [] \<and>
      (ranges \<noteq> [] \<longrightarrow> lower_bound (hd ranges) = sw_slot_offset (wal_slot_writer r)) \<and>
      (\<forall>batch. res = Inr batch \<longrightarrow>
         batch = \<lparr> to_recycle = pages, batch_slot_offset = sw_slot_offset (wal_slot_writer r) \<rparr> \<and>
         length ranges = length pages)"
proof -
  let ?batch = "\<lparr> to_recycle = pages, batch_slot_offset = sw_slot_offset (wal_slot_writer r) \<rparr>"
  obtain res1 r1 where w: "write_prepare_slots env ?batch pages None r = (res1, r1)"
    by (cases "write_prepare_slots env ?batch pages None r") auto
  from write_prepare_slots_trace [OF w] obtain ranges where
    n: "length ranges \<le> length pages"
       "recycler_trace r1 = recycler_trace r @
             map (\<lambda>(sr, p). R_append sr (PackedRecyclePagePrepare (page_id p) (batch_slot_offset ?batch)))
               (zip ranges pages)"
       "\<forall>x. res1 = Inr x \<longrightarrow> length ranges = length pages \<and> (pages \<noteq> [] \<longrightarrow> x \<noteq> None)"
       "ranges \<noteq> [] \<longrightarrow> lower_bound (hd ranges) = sw_slot_offset (wal_slot_writer r)"
    by blast
  have "\<exists>flush. recycler_trace r' = recycler_trace r1 @ flush \<and> appended_slots flush = [] \<and>
          (\<forall>batch. res = Inr batch \<longrightarrow> batch = ?batch \<and> (\<exists>x. res1 = Inr x))"
  proof (cases res1)
    case (Inl f)
    then have "res = Inl f" "r' = r1" using assms w by (auto simp: prepare_batch_def Let_def)
    then show ?thesis by (intro exI [where x = "[]"]) auto
  next
    case (Inr x)
    show ?thesis
    proof (cases x)
      case None
      then have "res = Inl Deref_empty_optional" "r' = r1"
        using assms w Inr by (auto simp: prepare_batch_def Let_def)
      then show ?thesis by (intro exI [where x = "[]"]) auto
    next
      case (Some ub)
      obtain st r2 where af: "await_flush env (Some ub) r1 = (st, r2)"
        by (cases "await_flush env (Some ub) r1") auto
      have "r' = r2" "res = (if st \<noteq> OkStatus then Inl (Status st) else Inr ?batch)"
        using assms w Inr Some af by (auto simp: prepare_batch_def Let_def split: if_splits)
      then show ?thesis using await_flush_Some [OF af] Inr
        by (intro exI [where x = "[R_flush ub st]"]) (auto split: if_splits)
    qed
  qed
  then obtain flush where
    f: "recycler_trace r' = recycler_trace r1 @ flush" "appended_slots flush = []"
       "\<forall>batch. res = Inr batch \<longrightarrow> batch = ?batch \<and> (\<exists>x. res1 = Inr x)"
    by blast
  show ?thesis
    using n f by (intro exI [where x = ranges] exI [where x = flush]) auto
qed


lemmas batch_eval_defs =
  prepare_batch_def commit_batch_def delete_batch_pages_def await_flush_def
  slot_writer_append_def clamp_min_slot_def slot_max_def slot_less_than_def
  log_event_def rec_env_def idle_recycler_def page_one_def batch_one_def batch_depth_def
  recycle_pages_def Let_def

lemma prepared_one_eval:
  "prepare_batch rec_env [page_one] idle_recycler =
     (Inr batch_one,
      idle_recycler\<lparr>
        wal_slot_writer := (wal_slot_writer idle_recycler)\<lparr>sw_slot_offset := 120\<rparr>,
        recycle_task_grant := \<lparr> issuer = 0, grant_size = 492 \<rparr>,
        wal_durable_upper_bound := 120,
        recycler_trace :=
          [R_append \<lparr> lower_bound = 100, upper_bound = 120 \<rparr> (PackedRecyclePagePrepare 1 100),
           R_flush 120 OkStatus]\<rparr>)"
  by (simp add: batch_eval_defs)



theorem C3_batch_slot_offset_witness:
  "fst (prepare_batch rec_env [page_one] idle_recycler) = Inr batch_one \<and>
   batch_slot_offset batch_one = sw_slot_offset (wal_slot_writer idle_recycler) \<and>
   (\<exists>ranges flush. length ranges = length [page_one] \<and>
      recycler_trace prepared_one = recycler_trace idle_recycler @
        map (\<lambda>(sr, p). R_append sr
               (PackedRecyclePagePrepare (page_id p) (sw_slot_offset (wal_slot_writer idle_recycler))))
          (zip ranges [page_one]) @ flush \<and>
      lower_bound (hd ranges) = sw_slot_offset (wal_slot_writer idle_recycler))"
proof -
  have run: "prepare_batch rec_env [page_one] idle_recycler = (Inr batch_one, prepared_one)"
    by (simp add: prepared_one_def prepared_one_eval)
  have b: "batch_slot_offset batch_one = sw_slot_offset (wal_slot_writer idle_recycler)"
    by (simp add: batch_one_def idle_recycler_def)
  from C3_batch_slot_offset [OF run] obtain ranges flush where
    h: "recycler_trace prepared_one = recycler_trace idle_recycler @
        map (\<lambda>(sr, p). R_append sr
               (PackedRecyclePagePrepare (page_id p) (sw_slot_offset (wal_slot_writer idle_recycler))))
          (zip ranges [page_one]) @ flush"
       "ranges \<noteq> [] \<longrightarrow> lower_bound (hd ranges) = sw_slot_offset (wal_slot_writer idle_recycler)"
       "length ranges = length [page_one]"
    by blast
  then have "ranges \<noteq> []" by auto
  then show ?thesis using run b h by auto
qed


theorem C4_insert_idempotent_witness:
  "find (\<lambda>p. page_id p = 1) (pending recycled_once) = Some page_one \<and>
   insert_to_log rec_env example_grant 1 0 recycled_once = (Inr 124, example_grant, recycled_once) \<and>
   recycle_pages rec_env [1] None 0 idle_recycler = (Inr 124, None, recycled_once) \<and>
   (\<exists>res2 r2. recycle_pages rec_env [1] None 0 recycled_once = (res2, None, r2) \<and>
       recycler_trace r2 = recycler_trace recycled_once \<and>
       sw_slot_offset (wal_slot_writer r2) = 124 \<and> pending r2 = pending recycled_once)"
proof -
  have f: "find (\<lambda>p. page_id p = 1) (pending recycled_once) = Some page_one"
    by (simp add: recycled_once_eq page_one_def)
  have d: "(0 :: nat) \<le> depth page_one" by simp
  have o: "sw_slot_offset (wal_slot_writer recycled_once) = 124"
    by (simp add: recycled_once_eq)
  have run: "recycle_pages rec_env [1] None 0 idle_recycler = (Inr 124, None, recycled_once)"
    by (simp add: recycled_once_def recycled_once_eval)
  have first: "insert_to_log rec_env example_grant 1 0 recycled_once =
                 (Inr (sw_slot_offset (wal_slot_writer recycled_once)), example_grant, recycled_once)"
    using C4_insert_idempotent [where pid = 1 and r = recycled_once and p = page_one and d = 0
        and env = rec_env and g = example_grant] f d
    by blast
  have second: "\<exists>res2 r2. recycle_pages rec_env [1] None 0 recycled_once = (res2, None, r2) \<and>
          recycler_trace r2 = recycler_trace recycled_once \<and>
          sw_slot_offset (wal_slot_writer r2) = sw_slot_offset (wal_slot_writer recycled_once) \<and>
          pending r2 = pending recycled_once"
    using C4_insert_idempotent [where pid = 1 and r = idle_recycler and d = 0 and env = rec_env
        and grant = None and ?s1.0 = 124 and ?grant1.0 = None and ?r1.0 = recycled_once] run
    by blast
  show ?thesis using f first second o run by simp
qed

theorem C5_recycle_pages_result_witness:
  "recycle_pages rec_env [1] None 0 idle_recycler = (Inr 124, None, recycled_once) \<and>
   grant_size (insert_grant_pool idle_recycler) < 2 ^ 63 \<and>
   (124 :: slot_offset_type) = sw_slot_offset (wal_slot_writer recycled_once) \<and>
   (\<exists>new. recycler_trace recycled_once = recycler_trace idle_recycler @ new \<and>
      (if appended_slots new = [] then (124 :: slot_offset_type) = sw_slot_offset (wal_slot_writer idle_recycler)
       else (124 :: slot_offset_type) = upper_bound (fst (last (appended_slots new)))))"
proof -
  have run: "recycle_pages rec_env [1] None 0 idle_recycler = (Inr 124, None, recycled_once)"
    by (simp add: recycled_once_def recycled_once_eval)
  have window: "(case (None :: Grant option) of None \<Rightarrow> grant_size (insert_grant_pool idle_recycler)
                  | Some g \<Rightarrow> grant_size g) < 2 ^ 63"
    by (simp add: idle_recycler_def)
  have ne: "[1 :: PageId] \<noteq> []" by simp
  from C5_recycle_pages_result [OF run window] ne obtain new where
    h: "recycler_trace recycled_once = recycler_trace idle_recycler @ new"
       "(124 :: slot_offset_type) = sw_slot_offset (wal_slot_writer recycled_once)"
       "if appended_slots new = [] then (124 :: slot_offset_type) = sw_slot_offset (wal_slot_writer idle_recycler)
        else (124 :: slot_offset_type) = upper_bound (fst (last (appended_slots new)))"
    by auto
  show ?thesis using run window h by auto
qed

lemma slot_writer_reserve_cases:
  "slot_writer_reserve n w = Inl f \<Longrightarrow> \<exists>c. f = Status c"
  "slot_writer_reserve n w = Inr (g, w1) \<Longrightarrow>
     sw_slot_offset w1 = sw_slot_offset w \<and> sw_halted w1 = sw_halted w \<and>
     sw_trim_pos w1 = sw_trim_pos w \<and> issuer g = sw_pool w \<and> grant_size g = n"
  by (auto simp: slot_writer_reserve_def split: if_splits)

lemma refresh_grants_frame:
  assumes "refresh_grants r = (res, r')"
  shows "res \<noteq> Inl Deref_empty_optional \<and>
         res \<noteq> Inl (Check_failed ''trim_point <= latest_info_slot'') \<and>
         recycler_trace r' = recycler_trace r \<and> options r' = options r \<and>
         stop_requested r' = stop_requested r \<and> pending r' = pending r \<and>
         latest_info_refresh_slot r' = latest_info_refresh_slot r \<and>
         latest_batch_upper_bound r' = latest_batch_upper_bound r \<and>
         prepared_batch r' = prepared_batch r \<and>
         sw_slot_offset (wal_slot_writer r') = sw_slot_offset (wal_slot_writer r)"
  using assms
  by (auto simp: refresh_grants_def Let_def
      dest!: slot_writer_reserve_cases(2)
      split: if_splits sum.splits prod.splits)

lemma refresh_recycler_info_slot_props:
  assumes "refresh_recycler_info_slot env slot_grant r = (res, grant_left, r')"
  shows "(\<forall>f. res = Inl f \<longrightarrow> (\<exists>c. f = Status c)) \<and>
         options r' = options r \<and> stop_requested r' = stop_requested r \<and>
         pending r' = pending r \<and>
         latest_info_refresh_slot r' = latest_info_refresh_slot r \<and>
         latest_batch_upper_bound r' = latest_batch_upper_bound r \<and>
         prepared_batch r' = prepared_batch r \<and>
         recycle_task_grant r' = recycle_task_grant r \<and>
         (\<exists>new. recycler_trace r' = recycler_trace r @ new \<and> (\<forall>tp. R_trim tp \<notin> set new)) \<and>
         (\<forall>sr. res = Inr sr \<longrightarrow> lower_bound sr = sw_slot_offset (wal_slot_writer r))"
proof -
  let ?n = "packed_sizeof env PackedPageRecyclerInfo"
  show ?thesis
  proof (cases "case slot_grant of
              Some g \<Rightarrow> (Inr (g, r) :: (Grant \<times> PageRecycler) status_or)
            | None \<Rightarrow>
                (case slot_writer_reserve ?n (wal_slot_writer r) of
                   Inl f \<Rightarrow> Inl f
                 | Inr (g, w1) \<Rightarrow> Inr (g, r\<lparr>wal_slot_writer := w1\<rparr>))")
    case (Inl f)
    then have "res = Inl f" "r' = r" using assms by (auto simp: refresh_recycler_info_slot_def)
    moreover have "\<exists>c. f = Status c"
      using Inl slot_writer_reserve_cases(1) [of ?n "wal_slot_writer r"]
      by (auto split: option.splits sum.splits)
    ultimately show ?thesis by auto
  next
    case (Inr x)
    obtain g r0 where x: "x = (g, r0)" by (cases x) auto
    have r0: "sw_slot_offset (wal_slot_writer r0) = sw_slot_offset (wal_slot_writer r)"
      "recycler_trace r0 = recycler_trace r" "options r0 = options r"
      "stop_requested r0 = stop_requested r" "pending r0 = pending r"
      "latest_info_refresh_slot r0 = latest_info_refresh_slot r"
      "latest_batch_upper_bound r0 = latest_batch_upper_bound r"
      "prepared_batch r0 = prepared_batch r" "recycle_task_grant r0 = recycle_task_grant r"
      using Inr x slot_writer_reserve_cases(2) [of ?n "wal_slot_writer r"]
      by (auto split: option.splits sum.splits)
    show ?thesis
    proof (cases "slot_writer_append ?n g (wal_slot_writer r0)")
      case (Inl f)
      then have "res = Inl f"
        "r' = (if slot_grant = None
                then r0\<lparr>wal_slot_writer := release_grant g (wal_slot_writer r0)\<rparr> else r0)"
        using assms Inr x by (auto simp: refresh_recycler_info_slot_def)
      moreover have "\<exists>c. f = Status c"
        using slot_writer_append_Inl [OF Inl] by auto
      ultimately show ?thesis using r0 by auto
    next
      case app: (Inr y)
      obtain sr g1 w1 where y: "y = (sr, g1, w1)" by (cases y) auto
      from slot_writer_append_Inr [OF app [unfolded y]]
      have lb: "lower_bound sr = sw_slot_offset (wal_slot_writer r)" using r0 by simp
      let ?r1 = "log_event (R_append sr PackedPageRecyclerInfo) (r0\<lparr>wal_slot_writer := w1\<rparr>)"
      obtain st r2 where af: "await_flush env (Some (upper_bound sr)) ?r1 = (st, r2)"
        by (cases "await_flush env (Some (upper_bound sr)) ?r1") auto
      note a2 = await_flush_Some [OF af]
      have rr: "res = (if st \<noteq> OkStatus then Inl (Status st) else Inr sr)"
        "r' = (if slot_grant = None
               then r2\<lparr>wal_slot_writer := release_grant g1 (wal_slot_writer r2)\<rparr> else r2)"
        using assms Inr x app y af
        by (auto simp: refresh_recycler_info_slot_def Let_def split: if_splits)
      have tr: "recycler_trace r' = recycler_trace r @
                  [R_append sr PackedPageRecyclerInfo, R_flush (upper_bound sr) st]"
        using rr a2 r0 by auto
      show ?thesis
        using rr a2 r0 lb tr
        by (intro conjI exI [where x = "[R_append sr PackedPageRecyclerInfo, R_flush (upper_bound sr) st]"])
           (auto split: if_splits)
    qed
  qed
qed

lemma refresh_info_for_trim_props:
  assumes "refresh_info_for_trim env r = (res, r')"
  shows "(\<forall>f. res = Inl f \<longrightarrow> (\<exists>c. f = Status c) \<or> f = Check_failed ''this->stop_requested_'') \<and>
         options r' = options r \<and> stop_requested r' = stop_requested r \<and>
         pending r' = pending r \<and>
         latest_batch_upper_bound r' = latest_batch_upper_bound r \<and>
         prepared_batch r' = prepared_batch r \<and>
         (\<exists>new. recycler_trace r' = recycler_trace r @ new \<and> (\<forall>tp. R_trim tp \<notin> set new)) \<and>
         (\<forall>s. res = Inr s \<longrightarrow>
            s = sw_slot_offset (wal_slot_writer r) \<and> latest_info_refresh_slot r' = s)"
proof (cases "grant_spend (info_slot_size (options r)) (recycle_task_grant r)")
  case (Inl f)
  then have "r' = r" "res = Inl (Check_failed ''this->stop_requested_'') \<or> res = Inl (Status kRecyclerStopped)"
    using assms by (auto simp: refresh_info_for_trim_def split: if_splits)
  then show ?thesis by auto
next
  case (Inr x)
  obtain ig tg where x: "x = (ig, tg)" by (cases x) auto
  let ?r1 = "r\<lparr>recycle_task_grant := tg\<rparr>"
  show ?thesis
  proof (cases "stop_requested r")
    case True
    then have "res = Inl (Status kRecyclerStopped)"
      "r' = ?r1\<lparr>wal_slot_writer := release_grant ig (wal_slot_writer ?r1)\<rparr>"
      using assms Inr x by (auto simp: refresh_info_for_trim_def Let_def)
    then show ?thesis by auto
  next
    case False
    obtain res2 gl r2 where rf: "refresh_recycler_info_slot env (Some ig) ?r1 = (res2, gl, r2)"
      by (cases "refresh_recycler_info_slot env (Some ig) ?r1") auto
    from refresh_recycler_info_slot_props [OF rf] obtain new where
      p: "\<forall>f. res2 = Inl f \<longrightarrow> (\<exists>c. f = Status c)" "options r2 = options r"
         "stop_requested r2 = stop_requested r" "pending r2 = pending r"
         "latest_batch_upper_bound r2 = latest_batch_upper_bound r"
         "prepared_batch r2 = prepared_batch r"
         "recycler_trace r2 = recycler_trace r @ new" "\<forall>tp. R_trim tp \<notin> set new"
         "\<forall>sr. res2 = Inr sr \<longrightarrow> lower_bound sr = sw_slot_offset (wal_slot_writer r)"
      by auto
    let ?r3 = "r2\<lparr>wal_slot_writer := release_grant (case_option ig id gl) (wal_slot_writer r2)\<rparr>"
    have rr: "(\<exists>f. res2 = Inl f \<and> res = Inl f \<and> r' = ?r3) \<or>
              (\<exists>sr. res2 = Inr sr \<and> res = Inr (lower_bound sr) \<and>
                    r' = ?r3\<lparr>latest_info_refresh_slot := lower_bound sr\<rparr>)"
      using assms Inr x False rf
      by (auto simp: refresh_info_for_trim_def Let_def split: sum.splits)
    then show ?thesis using p by (intro conjI exI [where x = new]) auto
  qed
qed


lemma slot_writer_trim_cases:
  "slot_writer_trim tp w = Inl f \<Longrightarrow> f = Status kHalted"
  "slot_writer_trim tp w = Inr w1 \<Longrightarrow> sw_slot_offset w1 = sw_slot_offset w"
  by (auto simp: slot_writer_trim_def split: if_splits)

lemma trim_log_props:
  assumes run: "trim_log env r = (res, r')"
  shows "res \<noteq> Inl Deref_empty_optional \<and>
         options r' = options r \<and> stop_requested r' = stop_requested r \<and>
         pending r' = pending r \<and> prepared_batch r' = prepared_batch r \<and>
         latest_batch_upper_bound r' = latest_batch_upper_bound r \<and>
         (res = Inl (Check_failed ''trim_point <= latest_info_slot'') \<longrightarrow>
            (\<exists>tp. trim_point_of (get_lru_slot (pending r)) (latest_batch_upper_bound r)
                     (latest_info_refresh_slot r) = Inr tp \<and>
                   sw_slot_offset (wal_slot_writer r) < tp)) \<and>
         (\<exists>new. recycler_trace r' = recycler_trace r @ new \<and>
            (\<forall>tp. R_trim tp \<in> set new \<longrightarrow>
               trim_point_of (get_lru_slot (pending r)) (latest_batch_upper_bound r)
                 (latest_info_refresh_slot r) = Inr tp \<and>
               tp \<le> latest_info_refresh_slot r') \<and>
            (res = Inr () \<longrightarrow> (\<exists>tp. R_trim tp \<in> set new)))"
proof (cases "trim_point_of (get_lru_slot (pending r)) (latest_batch_upper_bound r)
                (latest_info_refresh_slot r)")
  case (Inl f)
  then have "res = Inl f" "r' = r" using run by (auto simp: trim_log_def Let_def)
  moreover have "f = Check_failed ''this->latest_batch_upper_bound_''"
    using Inl by (auto simp: trim_point_of_def split: option.splits)
  ultimately show ?thesis using Inl by auto
next
  case (Inr tp)
  let ?c = "info_needs_refresh env (latest_info_refresh_slot r) (wal_slot_writer r) \<or>
            latest_info_refresh_slot r < tp"
  obtain res1 r1 where
    rf: "(if ?c then refresh_info_for_trim env r else (Inr (latest_info_refresh_slot r), r)) = (res1, r1)"
    by (cases "if ?c then refresh_info_for_trim env r else (Inr (latest_info_refresh_slot r), r)") auto
  have p1: "(\<forall>f. res1 = Inl f \<longrightarrow> (\<exists>c. f = Status c) \<or> f = Check_failed ''this->stop_requested_'') \<and>
         options r1 = options r \<and> stop_requested r1 = stop_requested r \<and>
         pending r1 = pending r \<and>
         latest_batch_upper_bound r1 = latest_batch_upper_bound r \<and>
         prepared_batch r1 = prepared_batch r \<and>
         (\<exists>new. recycler_trace r1 = recycler_trace r @ new \<and> (\<forall>tp. R_trim tp \<notin> set new)) \<and>
         (\<forall>s. res1 = Inr s \<longrightarrow> latest_info_refresh_slot r1 = s \<and>
            (\<not> tp \<le> s \<longrightarrow> s = sw_slot_offset (wal_slot_writer r)))"
  proof (cases ?c)
    case True
    then have "refresh_info_for_trim env r = (res1, r1)" using rf by (simp split: if_splits)
    from refresh_info_for_trim_props [OF this] show ?thesis by auto
  next
    case False
    then have "res1 = Inr (latest_info_refresh_slot r)" "r1 = r" using rf by (auto split: if_splits)
    then show ?thesis using False by auto
  qed
  then obtain new1 where
    n1: "recycler_trace r1 = recycler_trace r @ new1" "\<forall>tp. R_trim tp \<notin> set new1" by auto
  have unf: "(res, r') =
        (case (res1, r1) of
           (Inl f, r1) \<Rightarrow> (Inl f, r1)
         | (Inr s, r1) \<Rightarrow>
             if \<not> tp \<le> s then (Inl (Check_failed ''trim_point <= latest_info_slot''), r1)
             else (case slot_writer_trim tp (wal_slot_writer r1) of
                     Inl f \<Rightarrow> (Inl f, r1)
                   | Inr w1 \<Rightarrow> refresh_grants (log_event (R_trim tp) (r1\<lparr>wal_slot_writer := w1\<rparr>))))"
    using run Inr rf by (simp add: trim_log_def Let_def)
  show ?thesis
  proof (cases res1)
    case (Inl f)
    then have "res = Inl f" "r' = r1" using unf by auto
    then show ?thesis using p1 n1 Inl by (intro conjI exI [where x = new1]) auto
  next
    case s: (Inr s)
    show ?thesis
    proof (cases "tp \<le> s")
      case False
      then have "res = Inl (Check_failed ''trim_point <= latest_info_slot'')" "r' = r1"
        using unf s by auto
      moreover have "sw_slot_offset (wal_slot_writer r) < tp" using False p1 s by auto
      ultimately show ?thesis using p1 n1 Inr by (intro conjI exI [where x = new1]) auto
    next
      case le: True
      show ?thesis
      proof (cases "slot_writer_trim tp (wal_slot_writer r1)")
        case (Inl f)
        then have "res = Inl f" "r' = r1" using unf s le by auto
        moreover have "f = Status kHalted" using slot_writer_trim_cases(1) [OF Inl] .
        ultimately show ?thesis using p1 n1 by (intro conjI exI [where x = new1]) auto
      next
        case w: (Inr w1)
        let ?r2 = "log_event (R_trim tp) (r1\<lparr>wal_slot_writer := w1\<rparr>)"
        have rg: "refresh_grants ?r2 = (res, r')" using unf s le w by auto
        note g = refresh_grants_frame [OF rg]
        have tr: "recycler_trace r' = recycler_trace r @ (new1 @ [R_trim tp])"
          using g n1 by simp
        have li: "latest_info_refresh_slot r' = s" using g p1 s by simp
        show ?thesis
          using g p1 n1 tr li le Inr
          by (intro conjI exI [where x = "new1 @ [R_trim tp]"]) auto
      qed
    qed
  qed
qed

lemma commit_batch_upper_bound_offset:
  assumes "commit_batch env batch r = (Inr (), r')"
  shows "latest_batch_upper_bound r' = Some (sw_slot_offset (wal_slot_writer r'))"
proof -
  let ?n = "packed_sizeof env (PackedRecycleBatchCommit (batch_slot_offset batch))"
  obtain res1 r1 where
    w: "with_retry_policy (status_is_retryable env) (max_retries env) (delete_batch_pages env batch) 0 r
          = (res1, r1)"
    by (cases "with_retry_policy (status_is_retryable env) (max_retries env) (delete_batch_pages env batch) 0 r") auto
  from assms w obtain sr g1 w1 where
    app: "slot_writer_append ?n (recycle_task_grant r1) (wal_slot_writer r1) = Inr (sr, g1, w1)"
    by (auto simp: commit_batch_def split: sum.splits if_splits prod.splits)
  let ?r2 = "log_event (R_append sr (PackedRecycleBatchCommit (batch_slot_offset batch)))
               (r1\<lparr>wal_slot_writer := w1, recycle_task_grant := g1\<rparr>)"
  obtain st r3 where af: "await_flush env (Some (upper_bound sr)) ?r2 = (st, r3)"
    by (cases "await_flush env (Some (upper_bound sr)) ?r2") auto
  have r': "r' = r3\<lparr>latest_batch_upper_bound := Some (upper_bound sr)\<rparr>"
    using assms w app af by (auto simp: commit_batch_def split: sum.splits if_splits)
  have "wal_slot_writer r3 = w1" using await_flush_Some [OF af] by simp
  moreover have "sw_slot_offset w1 = upper_bound sr"
    using slot_writer_append_Inr [OF app] by simp
  ultimately show ?thesis using r' by simp
qed








lemma write_prepare_slots_result:
  assumes "write_prepare_slots env batch pages sub r = (res, r')"
  shows "(\<forall>f. res = Inl f \<longrightarrow> (\<exists>c. f = Status c)) \<and>
         (\<forall>x. res = Inr x \<longrightarrow> pages \<noteq> [] \<or> sub \<noteq> None \<longrightarrow> x \<noteq> None)"
  using assms
proof (induction pages arbitrary: sub r)
  case Nil
  then show ?case by auto
next
  case (Cons next_page pages)
  let ?n = "packed_sizeof env (PackedRecyclePagePrepare (page_id next_page) (batch_slot_offset batch))"
  show ?case
  proof (cases "stop_requested r")
    case True
    then show ?thesis using Cons.prems by auto
  next
    case False
    show ?thesis
    proof (cases "slot_writer_append ?n (recycle_task_grant r) (wal_slot_writer r)")
      case (Inl f)
      then have "res = Inl f" using Cons.prems False by auto
      then show ?thesis using slot_writer_append_Inl [OF Inl] by auto
    next
      case (Inr y)
      obtain sr g1 w1 where y: "y = (sr, g1, w1)" by (cases y) auto
      have "write_prepare_slots env batch pages (clamp_min_slot sub (upper_bound sr))
              (log_event (R_append sr (PackedRecyclePagePrepare (page_id next_page) (batch_slot_offset batch)))
                 (r\<lparr>wal_slot_writer := w1, recycle_task_grant := g1\<rparr>)) = (res, r')"
        using Cons.prems False Inr y by auto
      from Cons.IH [OF this] show ?thesis by (auto simp: clamp_min_slot_def)
    qed
  qed
qed

lemma prepare_batch_empty:
  "prepare_batch env [] r = (Inl Deref_empty_optional, r)"
  by (simp add: prepare_batch_def)

lemma prepare_batch_nonempty:
  assumes "pages \<noteq> []" "prepare_batch env pages r = (res, r')"
  shows "\<forall>f. res = Inl f \<longrightarrow> (\<exists>c. f = Status c)"
proof -
  let ?b = "\<lparr> to_recycle = pages, batch_slot_offset = sw_slot_offset (wal_slot_writer r) \<rparr>"
  obtain res1 r1 where w: "write_prepare_slots env ?b pages None r = (res1, r1)"
    by (cases "write_prepare_slots env ?b pages None r") auto
  note p = write_prepare_slots_result [OF w]
  show ?thesis
  proof (cases res1)
    case (Inl f)
    then show ?thesis using assms(2) w p by (auto simp: prepare_batch_def)
  next
    case (Inr x)
    then obtain ub where "x = Some ub" using p assms(1) by auto
    then show ?thesis using assms(2) w Inr
      by (auto simp: prepare_batch_def split: prod.splits if_splits)
  qed
qed

lemma fold_max_bounds:
  "fold max xs (a :: nat) \<in> insert a (set xs) \<and> a \<le> fold max xs a \<and>
   (\<forall>x \<in> set xs. x \<le> fold max xs a)"
proof (induction xs arbitrary: a)
  case Nil
  show ?case by simp
next
  case (Cons x xs)
  have m: "max x a = x \<or> max x a = a" by (auto simp: max_def)
  from Cons [of "max x a"] m show ?case by (auto simp: max_def split: if_splits)
qed

lemma fold_max_mem:
  assumes "xs \<noteq> []"
  shows "fold max xs (0 :: nat) \<in> set xs"
proof (cases "fold max xs 0 = 0")
  case True
  obtain x where x: "x \<in> set xs" using assms by (cases xs) auto
  then have "x \<le> 0" using fold_max_bounds [of xs 0] True by auto
  then show ?thesis using x True by simp
next
  case False
  then show ?thesis using fold_max_bounds [of xs 0] by auto
qed

lemma collect_batch_nonempty:
  assumes "ps \<noteq> []" "0 < n"
  shows "fst (collect_batch n ps) \<noteq> []"
proof -
  let ?d = "fold max (map depth ps) 0"
  have "?d \<in> set (map depth ps)" using assms(1) fold_max_mem [of "map depth ps"] by simp
  then obtain p where "p \<in> set ps" "depth p = ?d" by auto
  then have "filter (\<lambda>p. depth p = ?d) ps \<noteq> []" by (auto simp: filter_empty_conv)
  then show ?thesis using assms(2) by (simp add: collect_batch_def Let_def)
qed

lemma wait_for_work_props:
  assumes "wait_for_work env r = (res, r')"
  shows "res \<noteq> Inl Deref_empty_optional \<and> options r' = options r \<and>
         (res = Inr () \<longrightarrow> pending r' \<noteq> [])"
proof (cases "pending r = []")
  case False
  then show ?thesis using assms by (auto simp: wait_for_work_def)
next
  case True
  obtain res1 g r1 where rp: "recycle_pages env (waiting_callers env) None 0 r = (res1, g, r1)"
    by (cases "recycle_pages env (waiting_callers env) None 0 r") auto
  from recycle_pages_safe [OF rp] have "options r1 = options r" by simp
  then show ?thesis using assms True rp by (auto simp: wait_for_work_def split: if_splits)
qed

lemma recycle_task_round_no_deref:
  assumes "0 < batch_size (options r)"
  shows "fst (recycle_task_round env r) \<noteq> Inl Deref_empty_optional"
proof -
  let ?first = "case prepared_batch r of
              None \<Rightarrow> (Inr (), r)
            | Some batch_to_commit \<Rightarrow>
                (case commit_batch env batch_to_commit (r\<lparr>prepared_batch := None\<rparr>) of
                   (Inl f, r1) \<Rightarrow> (Inl f, r1)
                 | (Inr u, r1) \<Rightarrow> trim_log env r1)"
  obtain res0 r1 where f: "?first = (res0, r1)" by (cases ?first) auto
  have p0: "res0 \<noteq> Inl Deref_empty_optional \<and> options r1 = options r"
  proof (cases "prepared_batch r")
    case None
    then show ?thesis using f by auto
  next
    case (Some b)
    obtain resc rc where c: "commit_batch env b (r\<lparr>prepared_batch := None\<rparr>) = (resc, rc)"
      by (cases "commit_batch env b (r\<lparr>prepared_batch := None\<rparr>)") auto
    from commit_batch_trace [OF c] have pc: "resc \<noteq> Inl Deref_empty_optional" "options rc = options r"
      by auto
    show ?thesis
    proof (cases resc)
      case (Inl e)
      then show ?thesis using f Some c pc by auto
    next
      case (Inr u)
      then have "trim_log env rc = (res0, r1)" using f Some c by auto
      from trim_log_props [OF this] show ?thesis using pc by auto
    qed
  qed
  have unf: "recycle_task_round env r =
      (case (res0, r1) of
        (Inl f, r1) \<Rightarrow> (Inl f, r1)
      | (Inr u, r1) \<Rightarrow>
          (case wait_for_work env r1 of
             (Inl f, r2) \<Rightarrow> (Inl f, r2)
           | (Inr u, r2) \<Rightarrow>
               (case collect_batch (batch_size (options r2)) (pending r2) of
                  (pages, pending1) \<Rightarrow>
                    (case prepare_batch env pages (r2\<lparr>pending := pending1\<rparr>) of
                       (Inl f, r3) \<Rightarrow> (Inl f, r3)
                     | (Inr batch, r3) \<Rightarrow> (Inr (), r3\<lparr>prepared_batch := Some batch\<rparr>)))))"
    unfolding recycle_task_round_def f [symmetric] ..
  show ?thesis
  proof (cases res0)
    case (Inl e)
    then show ?thesis using unf p0 by auto
  next
    case (Inr u)
    obtain resw r2 where w: "wait_for_work env r1 = (resw, r2)"
      by (cases "wait_for_work env r1") auto
    note pw = wait_for_work_props [OF w]
    show ?thesis
    proof (cases resw)
      case (Inl e)
      then show ?thesis using unf Inr w pw by auto
    next
      case ok: (Inr u2)
      obtain pages pending1 where cb: "collect_batch (batch_size (options r2)) (pending r2) = (pages, pending1)"
        by (cases "collect_batch (batch_size (options r2)) (pending r2)") auto
      have ne: "pages \<noteq> []"
        using collect_batch_nonempty [of "pending r2" "batch_size (options r2)"] pw ok p0 assms cb
        by auto
      obtain resp r3 where pb: "prepare_batch env pages (r2\<lparr>pending := pending1\<rparr>) = (resp, r3)"
        by (cases "prepare_batch env pages (r2\<lparr>pending := pending1\<rparr>)") auto
      from prepare_batch_nonempty [OF ne pb] have "resp \<noteq> Inl Deref_empty_optional" by auto
      then show ?thesis using unf Inr w ok cb pb by (auto split: sum.splits)
    qed
  qed
qed

text \<open>
  C10. With no page \<open>prepare_batch\<close> appends nothing, leaves the recycler as it is
  and dereferences the empty \<open>sync_upper_bound\<close>; with at least one page it never
  does. When the wait for work of the recycle task returns OK a page is pending, and
  \<open>collect_batch\<close> with a positive batch size then returns at least one page; a round
  of the task with a positive batch size never dereferences the empty Optional.
\<close>

theorem C10_prepare_batch_precondition:
  "prepare_batch env [] r = (Inl Deref_empty_optional, r) \<and>
   (pages \<noteq> [] \<longrightarrow> fst (prepare_batch env pages r) \<noteq> Inl Deref_empty_optional) \<and>
   (wait_for_work env r = (Inr (), r2) \<longrightarrow>
      pending r2 \<noteq> [] \<and>
      (0 < batch_size (options r2) \<longrightarrow>
         fst (collect_batch (batch_size (options r2)) (pending r2)) \<noteq> [])) \<and>
   (0 < batch_size (options r) \<longrightarrow>
      fst (recycle_task_round env r) \<noteq> Inl Deref_empty_optional)"
proof (intro conjI impI)
  show "prepare_batch env [] r = (Inl Deref_empty_optional, r)" by (rule prepare_batch_empty)
next
  assume ne: "pages \<noteq> []"
  obtain res r' where pb: "prepare_batch env pages r = (res, r')"
    by (cases "prepare_batch env pages r") auto
  from prepare_batch_nonempty [OF ne pb] show "fst (prepare_batch env pages r) \<noteq> Inl Deref_empty_optional"
    using pb by auto
next
  assume w: "wait_for_work env r = (Inr (), r2)"
  from wait_for_work_props [OF w] show "pending r2 \<noteq> []" by simp
next
  assume w: "wait_for_work env r = (Inr (), r2)" and b: "0 < batch_size (options r2)"
  from wait_for_work_props [OF w] have "pending r2 \<noteq> []" by simp
  from collect_batch_nonempty [OF this b]
  show "fst (collect_batch (batch_size (options r2)) (pending r2)) \<noteq> []" .
next
  assume "0 < batch_size (options r)"
  then show "fst (recycle_task_round env r) \<noteq> Inl Deref_empty_optional"
    by (rule recycle_task_round_no_deref)
qed

theorem C10_prepare_batch_precondition_witness:
  "prepare_batch rec_env [] recycled_once = (Inl Deref_empty_optional, recycled_once) \<and>
   [page_one] \<noteq> [] \<and>
   fst (prepare_batch rec_env [page_one] recycled_once) \<noteq> Inl Deref_empty_optional \<and>
   wait_for_work rec_env recycled_once = (Inr (), recycled_once) \<and>
   pending recycled_once \<noteq> [] \<and>
   0 < batch_size (options recycled_once) \<and>
   fst (collect_batch (batch_size (options recycled_once)) (pending recycled_once)) \<noteq> [] \<and>
   fst (recycle_task_round rec_env recycled_once) \<noteq> Inl Deref_empty_optional"
proof -
  have w: "wait_for_work rec_env recycled_once = (Inr (), recycled_once)"
    by (simp add: wait_for_work_def recycled_once_eq)
  have b: "0 < batch_size (options recycled_once)"
    by (simp add: recycled_once_eq idle_recycler_def)
  show ?thesis
    using C10_prepare_batch_precondition [of rec_env recycled_once "[page_one]" recycled_once] w b
    by simp
qed


end
